theory Spec2Isabelle
  imports Complex_Main "HOL-Library.Word"
begin

section \<open>Arrays\<close>

text \<open>
  A NumPy array is a shape and a row-major buffer of samples. Samples are modelled as real
  numbers: the rounding of float32/float64 arithmetic, infinities and NaN samples are outside
  the model.
\<close>

record ndarray =
  shape :: "nat list"
  data :: "real list"

text \<open>
  The ways a run can end early: the script's own stop on an unsupported shape (an error
  message followed by \<open>st.stop()\<close>), and the two Python exceptions the functions can raise.
\<close>

datatype error = UnsupportedShape | IndexError | ValueError

definition ndim :: "ndarray \<Rightarrow> nat" where
  "ndim a = length (shape a)"

definition valid :: "ndarray \<Rightarrow> bool" where
  \<comment> \<open>the buffer holds exactly one sample per index tuple\<close>
  "valid a \<longleftrightarrow> length (data a) = prod_list (shape a)"

fun offset :: "nat list \<Rightarrow> nat list \<Rightarrow> nat" where
  \<comment> \<open>position of an index tuple in the row-major buffer of an array of shape \<open>s\<close>\<close>
  "offset (n # ns) (i # is) = i * prod_list ns + offset ns is"
| "offset _ _ = 0"

fun in_range :: "nat list \<Rightarrow> nat list \<Rightarrow> bool" where
  \<comment> \<open>the index tuple addresses a sample of an array of shape \<open>s\<close>\<close>
  "in_range [] [] = True"
| "in_range (n # ns) (i # is) = (i < n \<and> in_range ns is)"
| "in_range _ _ = False"

definition get :: "ndarray \<Rightarrow> nat list \<Rightarrow> real" where
  \<comment> \<open>\<open>a[i, j, ...]\<close> with one index per axis, for an index tuple in range\<close>
  "get a idx = data a ! offset (shape a) idx"

fun tabulate :: "nat list \<Rightarrow> (nat list \<Rightarrow> real) \<Rightarrow> real list" where
  \<comment> \<open>the row-major buffer of the array of shape \<open>s\<close> whose sample at \<open>idx\<close> is \<open>f idx\<close>\<close>
  "tabulate [] f = [f []]"
| "tabulate (n # ns) f = concat (map (\<lambda>i. tabulate ns (\<lambda>is. f (i # is))) [0..<n])"

definition zeros :: "nat list \<Rightarrow> ndarray" where
  \<comment> \<open>\<open>np.zeros(s)\<close>, and \<open>np.zeros_like(a)\<close> as \<open>zeros (shape a)\<close>\<close>
  "zeros s = \<lparr>shape = s, data = replicate (prod_list s) 0\<rparr>"

definition clip :: "real \<Rightarrow> real \<Rightarrow> real \<Rightarrow> real" where
  \<comment> \<open>\<open>np.clip(x, lo, hi)\<close> on one sample\<close>
  "clip x lo hi = min (max x lo) hi"

fun for_each :: "'a list \<Rightarrow> ('a \<Rightarrow> 's \<Rightarrow> error + 's) \<Rightarrow> 's \<Rightarrow> error + 's" where
  \<comment> \<open>a \<open>for\<close> loop over the given items, threading the state the body updates; an
     exception raised by the body ends the loop\<close>
  "for_each [] body s = Inr s"
| "for_each (i # is) body s =
     (case body i s of Inl e \<Rightarrow> Inl e | Inr s' \<Rightarrow> for_each is body s')"

section \<open>Percentile normalisation\<close>

text \<open>
  \<open>np.percentile(a, q)\<close> is NumPy's function, called with its default method (linear
  interpolation) on the flattened array: the virtual index \<open>(n - 1) * q / 100\<close> into the
  sorted samples, interpolated between its two neighbours. It raises ValueError for \<open>q\<close>
  outside \<open>[0, 100]\<close>, and IndexError on an array without samples, whose last sample it
  reads. The result is a float, \<open>Some v\<close>; \<open>None\<close> stands for NaN, which real-valued samples
  never produce.
\<close>

definition percentile :: "real list \<Rightarrow> real \<Rightarrow> error + real option" where
  "percentile a q =
     (if q < 0 \<or> 100 < q then Inl ValueError
      else if a = [] then Inl IndexError
      else let s = sort a; n = length a;
               virtual_index = real (n - 1) * (q / 100);
               previous_index = nat \<lfloor>virtual_index\<rfloor>;
               next_index = min (previous_index + 1) (n - 1);
               gamma = virtual_index - real previous_index
           in Inr (Some (s ! previous_index + (s ! next_index - s ! previous_index) * gamma)))"

fun gt :: "real option \<Rightarrow> real option \<Rightarrow> bool" where
  \<comment> \<open>\<open>a > b\<close> on floats: False as soon as one side is NaN\<close>
  "gt (Some a) (Some b) = (a > b)"
| "gt _ _ = False"

definition unpack4 :: "nat list \<Rightarrow> error + (nat \<times> nat \<times> nat \<times> nat)" where
  \<comment> \<open>\<open>Z, C, X, Y = volume.shape\<close>\<close>
  "unpack4 s = (case s of [Z, C, X, Y] \<Rightarrow> Inr (Z, C, X, Y) | _ \<Rightarrow> Inl ValueError)"

definition channel :: "ndarray \<Rightarrow> nat \<Rightarrow> ndarray" where
  \<comment> \<open>\<open>volume[:, c, :, :]\<close>\<close>
  "channel volume c =
     (let s = [shape volume ! 0, shape volume ! 2, shape volume ! 3]
      in \<lparr>shape = s, data = tabulate s (\<lambda>i. get volume [i ! 0, c, i ! 1, i ! 2])\<rparr>)"

definition map_array :: "(real \<Rightarrow> real) \<Rightarrow> ndarray \<Rightarrow> ndarray" where
  \<comment> \<open>an elementwise operation, returning a new array\<close>
  "map_array f a = \<lparr>shape = shape a, data = map f (data a)\<rparr>"

definition assign_channel :: "ndarray \<Rightarrow> nat \<Rightarrow> ndarray \<Rightarrow> ndarray" where
  \<comment> \<open>\<open>a[:, c] = vals\<close> for \<open>vals\<close> of shape \<open>(Z, X, Y)\<close>\<close>
  "assign_channel a c vals =
     a\<lparr>data := tabulate (shape a)
        (\<lambda>i. if i ! 1 = c then get vals [i ! 0, i ! 2, i ! 3] else get a i)\<rparr>"

definition fill_channel :: "ndarray \<Rightarrow> nat \<Rightarrow> real \<Rightarrow> ndarray" where
  \<comment> \<open>\<open>a[:, c] = x\<close> for a scalar \<open>x\<close>\<close>
  "fill_channel a c x =
     a\<lparr>data := tabulate (shape a) (\<lambda>i. if i ! 1 = c then x else get a i)\<rparr>"

definition normalize_channel ::
  "ndarray \<Rightarrow> (real \<times> real) list \<Rightarrow> nat \<Rightarrow> ndarray \<Rightarrow> error + ndarray" where
  \<comment> \<open>the body of the loop over \<open>c\<close>\<close>
  "normalize_channel volume percentiles c norm_volume =
     (let ch = channel volume c in
      if length percentiles \<le> c then Inl IndexError
      else let (lower_p, upper_p) = percentiles ! c in
        case percentile (data ch) lower_p of Inl e \<Rightarrow> Inl e
        | Inr vmin \<Rightarrow>
        (case percentile (data ch) upper_p of Inl e \<Rightarrow> Inl e
         | Inr vmax \<Rightarrow>
           if gt vmax vmin
           then Inr (assign_channel norm_volume c
                  (map_array (\<lambda>x. clip ((x - the vmin) / (the vmax - the vmin)) 0 1) ch))
           else Inr (fill_channel norm_volume c 0)))"

definition normalize_channels_with_percentiles ::
  "ndarray \<Rightarrow> (real \<times> real) list \<Rightarrow> error + ndarray" where
  "normalize_channels_with_percentiles volume percentiles =
     (case unpack4 (shape volume) of Inl e \<Rightarrow> Inl e
      | Inr (Z, C, X, Y) \<Rightarrow>
          for_each [0..<C] (normalize_channel volume percentiles) (zeros (shape volume)))"

definition normalized :: "ndarray \<Rightarrow> (real \<times> real) list \<Rightarrow> nat \<Rightarrow> real \<Rightarrow> real" where
  \<comment> \<open>what the loop body for channel \<open>c\<close> stores for a sample \<open>x\<close> of that channel\<close>
  "normalized volume percentiles c x =
     (case (percentile (data (channel volume c)) (fst (percentiles ! c)),
            percentile (data (channel volume c)) (snd (percentiles ! c))) of
        (Inr vmin, Inr vmax) \<Rightarrow>
          if gt vmax vmin then clip ((x - the vmin) / (the vmax - the vmin)) 0 1 else 0
      | _ \<Rightarrow> 0)"

definition percents_ok :: "(real \<times> real) list \<Rightarrow> bool" where
  \<comment> \<open>every percentile of the list lies in \<open>[0, 100]\<close>\<close>
  "percents_ok ps \<longleftrightarrow> (\<forall>p \<in> set ps. 0 \<le> fst p \<and> fst p \<le> 100 \<and> 0 \<le> snd p \<and> snd p \<le> 100)"

definition interpolate :: "real list \<Rightarrow> real \<Rightarrow> real" where
  \<comment> \<open>the value at a virtual index between two neighbours of a list\<close>
  "interpolate s t =
     (let previous_index = nat \<lfloor>t\<rfloor>;
          next_index = min (previous_index + 1) (length s - 1);
          gamma = t - real previous_index
      in s ! previous_index + (s ! next_index - s ! previous_index) * gamma)"

section \<open>Colour compositing\<close>

definition index2 :: "ndarray \<Rightarrow> nat \<Rightarrow> nat \<Rightarrow> error + ndarray" where
  \<comment> \<open>\<open>volume[z, c]\<close> on a 4-D array: the 2-D plane, or IndexError out of range\<close>
  "index2 a z c =
     (if z < shape a ! 0 \<and> c < shape a ! 1
      then let s = [shape a ! 2, shape a ! 3]
           in Inr \<lparr>shape = s, data = tabulate s (\<lambda>i. get a [z, c, i ! 0, i ! 1])\<rparr>
      else Inl IndexError)"

definition index1 :: "ndarray \<Rightarrow> nat \<Rightarrow> ndarray" where
  \<comment> \<open>\<open>a[z]\<close> for \<open>z\<close> in range: the sub-array at position \<open>z\<close> of axis 0\<close>
  "index1 a z = \<lparr>shape = tl (shape a), data = tabulate (tl (shape a)) (\<lambda>i. get a (z # i))\<rparr>"

definition add_plane :: "ndarray \<Rightarrow> nat \<Rightarrow> nat \<Rightarrow> ndarray \<Rightarrow> ndarray" where
  \<comment> \<open>\<open>a[z, :, :, k] += plane\<close> for \<open>plane\<close> of shape \<open>(X, Y)\<close>\<close>
  "add_plane a z k plane =
     a\<lparr>data := tabulate (shape a)
        (\<lambda>i. if i ! 0 = z \<and> i ! 3 = k then get a i + get plane [i ! 1, i ! 2] else get a i)\<rparr>"

definition assign_slice :: "ndarray \<Rightarrow> nat \<Rightarrow> ndarray \<Rightarrow> ndarray" where
  \<comment> \<open>\<open>a[z] = vals\<close> for \<open>vals\<close> of the shape of \<open>a[z]\<close>\<close>
  "assign_slice a z vals =
     a\<lparr>data := tabulate (shape a) (\<lambda>i. if i ! 0 = z then get vals (tl i) else get a i)\<rparr>"

definition add_channel ::
  "ndarray \<Rightarrow> bool list \<Rightarrow> nat \<Rightarrow> nat \<times> real \<times> real \<times> real \<Rightarrow> ndarray \<Rightarrow> error + ndarray" where
  \<comment> \<open>the body of the loop over \<open>enumerate(channel_colors)\<close>\<close>
  "add_channel volume visibility z item rgb_stack =
     (case item of (c, r, g, b) \<Rightarrow>
        if length visibility \<le> c then Inl IndexError
        else if visibility ! c then
          (case index2 volume z c of Inl e \<Rightarrow> Inl e
           | Inr gray \<Rightarrow>
               let rgb1 = add_plane rgb_stack z 0 (map_array (\<lambda>v. v * r) gray);
                   rgb2 = add_plane rgb1 z 1 (map_array (\<lambda>v. v * g) gray);
                   rgb3 = add_plane rgb2 z 2 (map_array (\<lambda>v. v * b) gray)
               in Inr rgb3)
        else Inr rgb_stack)"

definition composite_slice ::
  "ndarray \<Rightarrow> (real \<times> real \<times> real) list \<Rightarrow> bool list \<Rightarrow> nat \<Rightarrow> ndarray \<Rightarrow> error + ndarray" where
  \<comment> \<open>the body of the loop over \<open>z\<close>\<close>
  "composite_slice volume channel_colors visibility z rgb_stack =
     (case for_each (enumerate 0 channel_colors) (add_channel volume visibility z) rgb_stack of
        Inl e \<Rightarrow> Inl e
      | Inr rgb \<Rightarrow> Inr (assign_slice rgb z (map_array (\<lambda>v. clip v 0 1) (index1 rgb z))))"

definition multichannel_to_rgb_stack ::
  "ndarray \<Rightarrow> (real \<times> real \<times> real) list \<Rightarrow> bool list \<Rightarrow> error + ndarray" where
  "multichannel_to_rgb_stack volume channel_colors visibility =
     (case unpack4 (shape volume) of Inl e \<Rightarrow> Inl e
      | Inr (Z, C, X, Y) \<Rightarrow>
          for_each [0..<Z] (composite_slice volume channel_colors visibility) (zeros [Z, X, Y, 3]))"

definition component :: "real \<times> real \<times> real \<Rightarrow> nat \<Rightarrow> real" where
  \<comment> \<open>component \<open>k\<close> (0 red, 1 green, 2 blue) of a colour triple\<close>
  "component col k = (case col of (r, g, b) \<Rightarrow> if k = 0 then r else if k = 1 then g else b)"

definition weighted_sum ::
  "ndarray \<Rightarrow> (real \<times> real \<times> real) list \<Rightarrow> bool list \<Rightarrow> nat \<Rightarrow> nat \<Rightarrow> nat \<Rightarrow> nat \<Rightarrow> real" where
  \<comment> \<open>the sum over the visible channels of sample times colour component\<close>
  "weighted_sum volume channel_colors visibility z x y k =
     sum_list (map (\<lambda>c. get volume [z, c, x, y] * component (channel_colors ! c) k)
       (filter (\<lambda>c. visibility ! c) [0..<length channel_colors]))"

definition colors_ok :: "nat \<Rightarrow> (real \<times> real \<times> real) list \<Rightarrow> bool list \<Rightarrow> bool" where
  \<comment> \<open>every index the loop over the colours reads exists: a visibility flag for each colour,
     and a channel of the volume for each visible colour\<close>
  "colors_ok C channel_colors visibility \<longleftrightarrow>
     (\<forall>c<length channel_colors. c < length visibility \<and> (visibility ! c \<longrightarrow> c < C))"

section \<open>Shape resolution and the pipeline\<close>

definition collapse :: "ndarray \<Rightarrow> error + ndarray" where
  \<comment> \<open>a 5-D array with a leading axis of size 1 becomes \<open>img[0]\<close>; any other 5-D array stops
     the script with an error message\<close>
  "collapse img =
     (if ndim img = 5
      then (if shape img ! 0 = 1 then Inr (index1 img 0) else Inl UnsupportedShape)
      else Inr img)"

definition resolve_shape :: "ndarray \<Rightarrow> error + ndarray" where
  \<comment> \<open>the two shape checks at the start of the script\<close>
  "resolve_shape img =
     (case collapse img of Inl e \<Rightarrow> Inl e
      | Inr img' \<Rightarrow> if ndim img' \<noteq> 4 then Inl UnsupportedShape else Inr img')"

definition pipeline ::
  "ndarray \<Rightarrow> (real \<times> real) list \<Rightarrow> (real \<times> real \<times> real) list \<Rightarrow> bool list \<Rightarrow> error + ndarray" where
  \<comment> \<open>shape checks, then normalisation, then compositing\<close>
  "pipeline img percentiles channel_colors channel_visibility =
     (case resolve_shape img of Inl e \<Rightarrow> Inl e
      | Inr img' \<Rightarrow>
        (case normalize_channels_with_percentiles img' percentiles of Inl e \<Rightarrow> Inl e
         | Inr norm_img \<Rightarrow> multichannel_to_rgb_stack norm_img channel_colors channel_visibility))"

definition prepend_axis :: "ndarray \<Rightarrow> ndarray" where
  \<comment> \<open>the array of shape \<open>(1, ...)\<close> with the same samples\<close>
  "prepend_axis v = \<lparr>shape = 1 # shape v, data = data v\<rparr>"

section \<open>Colour strings\<close>

definition hex_digit :: "char \<Rightarrow> nat option" where
  \<comment> \<open>the value of a hexadecimal digit, upper or lower case\<close>
  "hex_digit ch =
     (let n = (of_char ch :: nat) in
      if 48 \<le> n \<and> n \<le> 57 then Some (n - 48)
      else if 97 \<le> n \<and> n \<le> 102 then Some (n - 87)
      else if 65 \<le> n \<and> n \<le> 70 then Some (n - 55)
      else None)"

definition is_space :: "char \<Rightarrow> bool" where
  \<comment> \<open>the characters \<open>int\<close> skips around a number, among the code points below 256 (a
     \<open>char\<close> is one of these): the space, tab to carriage return, and the two spaces beyond
     ASCII, U+0085 and U+00A0\<close>
  "is_space ch =
     (let n = (of_char ch :: nat) in n = 32 \<or> (9 \<le> n \<and> n \<le> 13) \<or> n = 133 \<or> n = 160)"

fun digits_value :: "nat \<Rightarrow> string \<Rightarrow> nat option" where
  \<comment> \<open>the number written by a string of hexadecimal digits, continuing from \<open>acc\<close>\<close>
  "digits_value acc [] = Some acc"
| "digits_value acc (ch # cs) =
     (case hex_digit ch of None \<Rightarrow> None | Some d \<Rightarrow> digits_value (16 * acc + d) cs)"

definition strip :: "string \<Rightarrow> string" where
  "strip s = rev (dropWhile is_space (rev (dropWhile is_space s)))"

definition int16 :: "string \<Rightarrow> error + int" where
  \<comment> \<open>\<open>int(s, 16)\<close> for the strings the program passes, which have at most two characters:
     surrounding whitespace, an optional sign, then at least one hexadecimal digit. (The
     \<open>0x\<close> prefix and the underscore separators that \<open>int\<close> also accepts need three
     characters.)\<close>
  "int16 s =
     (let t = strip s;
          (negative, ds) = (case t of
              ch # r \<Rightarrow> if ch = CHR ''-'' then (True, r)
                        else if ch = CHR ''+'' then (False, r) else (False, t)
            | [] \<Rightarrow> (False, t))
      in if ds = [] then Inl ValueError
         else case digits_value 0 ds of
                None \<Rightarrow> Inl ValueError
              | Some n \<Rightarrow> Inr (if negative then - int n else int n))"

definition slice :: "string \<Rightarrow> nat \<Rightarrow> nat \<Rightarrow> string" where
  \<comment> \<open>\<open>s[i:j]\<close> for \<open>0 \<le> i \<le> j\<close>\<close>
  "slice s i j = take (j - i) (drop i s)"

definition hex_to_rgb_floats :: "string \<Rightarrow> error + (real \<times> real \<times> real)" where
  "hex_to_rgb_floats hex_color =
     (case int16 (slice hex_color 1 (1 + 2)) of Inl e \<Rightarrow> Inl e
      | Inr r \<Rightarrow>
        (case int16 (slice hex_color 3 (3 + 2)) of Inl e \<Rightarrow> Inl e
         | Inr g \<Rightarrow>
           (case int16 (slice hex_color 5 (5 + 2)) of Inl e \<Rightarrow> Inl e
            | Inr b \<Rightarrow> Inr (of_int r / 255, of_int g / 255, of_int b / 255))))"

section \<open>Display and export\<close>

definition astype_uint8 :: "real \<Rightarrow> 8 word" where
  \<comment> \<open>\<open>x.astype(np.uint8)\<close> on one sample: the fraction is dropped (rounding toward zero);
     the integer is then taken modulo 256\<close>
  "astype_uint8 x = word_of_int (if 0 \<le> x then \<lfloor>x\<rfloor> else \<lceil>x\<rceil>)"

definition to_uint8 :: "real \<Rightarrow> 8 word" where
  \<comment> \<open>one sample of \<open>(rgb_stack[z] * 255).astype(np.uint8)\<close>\<close>
  "to_uint8 v = astype_uint8 (v * 255)"

definition slice_uint8 :: "ndarray \<Rightarrow> nat \<Rightarrow> 8 word list" where
  \<comment> \<open>the samples of \<open>(rgb_stack[z] * 255).astype(np.uint8)\<close>, in row-major order\<close>
  "slice_uint8 rgb_stack z = map to_uint8 (data (index1 rgb_stack z))"

fun decimal :: "nat \<Rightarrow> string" where
  \<comment> \<open>the decimal digits of a number\<close>
  "decimal n = (if n < 10 then [char_of (48 + n)] else decimal (n div 10) @ [char_of (48 + n mod 10)])"

declare decimal.simps [simp del]

definition format_03d :: "nat \<Rightarrow> string" where
  \<comment> \<open>the format specification \<open>03d\<close>: zero-padded on the left to at least three characters\<close>
  "format_03d n = replicate (3 - length (decimal n)) CHR ''0'' @ decimal n"

definition file_name :: "nat \<Rightarrow> string" where
  \<comment> \<open>\<open>f"z_{z:03d}.png"\<close>\<close>
  "file_name z = ''z_'' @ format_03d z @ ''.png''"

definition spec_quantize :: "real \<Rightarrow> int" where
  \<comment> \<open>the conversion as the specification words it: \<open>round(value * 255)\<close> clamped to
     \<open>[0, 255]\<close>\<close>
  "spec_quantize v = min 255 (max 0 (round (v * 255)))"

definition decimal_value :: "string \<Rightarrow> nat" where
  \<comment> \<open>the number a string of decimal digits denotes\<close>
  "decimal_value s = foldl (\<lambda>acc ch. 10 * acc + (of_char ch - 48)) 0 s"

section \<open>Arrays in memory\<close>

text \<open>
  To speak about mutation, arrays live in a heap: the list of the arrays allocated so far, an
  address being a position in it. A function receives the address of its argument (NumPy
  passes arrays by reference, and \<open>volume[:, c, :, :]\<close> and \<open>volume[z, c]\<close> are views of the
  argument's buffer), allocates its result and updates it in place, statement by statement.
\<close>

type_synonym heap = "ndarray list"

definition alloc :: "heap \<Rightarrow> ndarray \<Rightarrow> heap \<times> nat" where
  \<comment> \<open>a new array: the heap grows by one, and the new address is returned\<close>
  "alloc h a = (h @ [a], length h)"

definition in_place ::
  "nat \<Rightarrow> nat \<Rightarrow> (ndarray \<Rightarrow> ndarray \<Rightarrow> error + ndarray) \<Rightarrow> heap \<Rightarrow> error + heap" where
  \<comment> \<open>a statement that reads the array at \<open>src\<close> and updates the array at \<open>dst\<close> in place\<close>
  "in_place src dst f h =
     (case f (h ! src) (h ! dst) of Inl e \<Rightarrow> Inl e | Inr a \<Rightarrow> Inr (h[dst := a]))"

definition normalize_in_heap :: "heap \<Rightarrow> nat \<Rightarrow> (real \<times> real) list \<Rightarrow> error + heap \<times> nat" where
  \<comment> \<open>\<open>normalize_channels_with_percentiles\<close> on the array at address \<open>volume\<close>\<close>
  "normalize_in_heap h volume percentiles =
     (case unpack4 (shape (h ! volume)) of Inl e \<Rightarrow> Inl e
      | Inr (Z, C, X, Y) \<Rightarrow>
          (case alloc h (zeros (shape (h ! volume))) of (h0, norm_volume) \<Rightarrow>
             (case for_each [0..<C]
                     (\<lambda>c. in_place volume norm_volume
                        (\<lambda>vol nv. normalize_channel vol percentiles c nv)) h0 of
                Inl e \<Rightarrow> Inl e
              | Inr h1 \<Rightarrow> Inr (h1, norm_volume))))"

definition composite_slice_in_heap ::
  "nat \<Rightarrow> nat \<Rightarrow> (real \<times> real \<times> real) list \<Rightarrow> bool list \<Rightarrow> nat \<Rightarrow> heap \<Rightarrow> error + heap" where
  \<comment> \<open>the body of the loop over \<open>z\<close>: the loop over the colours, then the clipping of the slice\<close>
  "composite_slice_in_heap volume rgb_stack channel_colors visibility z h =
     (case for_each (enumerate 0 channel_colors)
             (\<lambda>item. in_place volume rgb_stack
                (\<lambda>vol rgb. add_channel vol visibility z item rgb)) h of
        Inl e \<Rightarrow> Inl e
      | Inr h1 \<Rightarrow>
          in_place volume rgb_stack
            (\<lambda>vol rgb. Inr (assign_slice rgb z (map_array (\<lambda>v. clip v 0 1) (index1 rgb z)))) h1)"

definition render_in_heap ::
  "heap \<Rightarrow> nat \<Rightarrow> (real \<times> real \<times> real) list \<Rightarrow> bool list \<Rightarrow> error + heap \<times> nat" where
  \<comment> \<open>\<open>multichannel_to_rgb_stack\<close> on the array at address \<open>volume\<close>\<close>
  "render_in_heap h volume channel_colors visibility =
     (case unpack4 (shape (h ! volume)) of Inl e \<Rightarrow> Inl e
      | Inr (Z, C, X, Y) \<Rightarrow>
          (case alloc h (zeros [Z, X, Y, 3]) of (h0, rgb_stack) \<Rightarrow>
             (case for_each [0..<Z]
                     (composite_slice_in_heap volume rgb_stack channel_colors visibility) h0 of
                Inl e \<Rightarrow> Inl e
              | Inr h1 \<Rightarrow> Inr (h1, rgb_stack))))"

section \<open>Facts about arrays\<close>

lemma concat_map_upt_length:
  assumes "\<And>i. i < n \<Longrightarrow> length (g i) = m"
  shows "length (concat (map g [0..<n])) = n * m"
  using assms by (induction n) simp_all

lemma block_bound:
  fixes i j m n :: nat
  assumes "i < n" and "j < m"
  shows "i * m + j < n * m"
proof -
  have "i * m + j < Suc i * m"
    using assms(2) by simp
  also have "\<dots> \<le> n * m"
    using assms(1) by (intro mult_le_mono1) simp
  finally show ?thesis .
qed

lemma concat_map_upt_nth:
  assumes "\<And>i. i < n \<Longrightarrow> length (g i) = m" and "i < n" and "j < m"
  shows "concat (map g [0..<n]) ! (i * m + j) = g i ! j"
  using assms
proof (induction n)
  case 0
  then show ?case by simp
next
  case (Suc n)
  have len: "length (concat (map g [0..<n])) = n * m"
    using Suc.prems(1) by (simp add: concat_map_upt_length)
  show ?case
  proof (cases "i < n")
    case True
    then have "i * m + j < n * m"
      using Suc.prems(3) by (simp add: block_bound)
    then show ?thesis
      using Suc True len by (simp add: nth_append)
  next
    case False
    then have "i = n" using Suc.prems(2) by simp
    then show ?thesis using len by (simp add: nth_append)
  qed
qed

lemma tabulate_length: "length (tabulate s f) = prod_list s"
  by (induction s arbitrary: f) (simp_all add: concat_map_upt_length)

lemma offset_bound: "in_range s idx \<Longrightarrow> offset s idx < prod_list s"
proof (induction s idx rule: in_range.induct)
  case (2 n ns i "is")
  then show ?case
    using block_bound [of i n "offset ns is" "prod_list ns"] by simp
qed simp_all

lemma tabulate_nth: "in_range s idx \<Longrightarrow> tabulate s f ! offset s idx = f idx"
proof (induction s idx arbitrary: f rule: in_range.induct)
  case (2 n ns i "is")
  have "concat (map (\<lambda>i. tabulate ns (\<lambda>is. f (i # is))) [0..<n]) ! (i * prod_list ns + offset ns is)
      = tabulate ns (\<lambda>is. f (i # is)) ! offset ns is"
    using 2 by (intro concat_map_upt_nth) (simp_all add: tabulate_length offset_bound)
  then show ?case
    using 2 by simp
qed simp_all

lemma tabulate_cong:
  "(\<And>idx. in_range s idx \<Longrightarrow> f idx = g idx) \<Longrightarrow> tabulate s f = tabulate s g"
proof (induction s arbitrary: f g)
  case Nil
  then show ?case by simp
next
  case (Cons n ns)
  have "tabulate ns (\<lambda>is. f (i # is)) = tabulate ns (\<lambda>is. g (i # is))" if "i < n" for i
    using that Cons.prems by (intro Cons.IH) simp
  then have "map (\<lambda>i. tabulate ns (\<lambda>is. f (i # is))) [0..<n]
      = map (\<lambda>i. tabulate ns (\<lambda>is. g (i # is))) [0..<n]"
    by (intro map_cong) simp_all
  then show ?case by (simp only: tabulate.simps)
qed

declare tabulate.simps [simp del] offset.simps [simp del]

lemma for_each_rule:
  assumes "P [] s"
    and "\<And>ds i rest t. xs = ds @ i # rest \<Longrightarrow> P ds t \<Longrightarrow>
           \<exists>t'. body i t = Inr t' \<and> P (ds @ [i]) t'"
  shows "\<exists>s'. for_each xs body s = Inr s' \<and> P xs s'"
  using assms
proof (induction xs arbitrary: P s)
  case Nil
  then show ?case by simp
next
  case (Cons x xs)
  from Cons.prems(2) [of "[]" x xs s] Cons.prems(1)
  obtain s1 where s1: "body x s = Inr s1" "P [x] s1" by auto
  have "\<exists>s'. for_each xs body s1 = Inr s' \<and> (\<lambda>ds. P (x # ds)) xs s'"
  proof (rule Cons.IH)
    show "P [x] s1" by (rule s1)
  next
    fix ds i rest t
    assume "xs = ds @ i # rest" "P (x # ds) t"
    then show "\<exists>t'. body i t = Inr t' \<and> P (x # ds @ [i]) t'"
      using Cons.prems(2) [of "x # ds" i rest t] by simp
  qed
  then show ?case using s1 by simp
qed

lemma upt_split:
  assumes "[0..<n] = ds @ i # rest"
  shows "i < n" and "i \<notin> set ds"
proof -
  have "i \<in> set [0..<n]" using assms by simp
  then show "i < n" by simp
  have "distinct (ds @ i # rest)" using assms by (metis distinct_upt)
  then show "i \<notin> set ds" by simp
qed

lemma get_tabulate:
  "in_range s idx \<Longrightarrow> get \<lparr>shape = s, data = tabulate s f\<rparr> idx = f idx"
  by (simp add: get_def tabulate_nth)

lemma in_range4: "in_range [Z, C, X, Y] [z, c, x, y] \<longleftrightarrow> z < Z \<and> c < C \<and> x < X \<and> y < Y"
  by simp

lemma get_channel:
  assumes "shape volume = [Z, C, X, Y]" "z < Z" "x < X" "y < Y"
  shows "get (channel volume c) [z, x, y] = get volume [z, c, x, y]"
  using assms by (simp add: channel_def Let_def get_def tabulate_nth)

lemma get_map_array:
  assumes "valid a" "in_range (shape a) idx"
  shows "get (map_array f a) idx = f (get a idx)"
  using assms offset_bound [of "shape a" idx]
  by (simp add: map_array_def get_def valid_def)

lemma valid_channel: "valid (channel volume c)"
  by (simp add: channel_def Let_def valid_def tabulate_length)

lemma shape_channel: "shape volume = [Z, C, X, Y] \<Longrightarrow> shape (channel volume c) = [Z, X, Y]"
  by (simp add: channel_def Let_def)

lemma get_assign_channel:
  assumes "shape a = [Z, C, X, Y]" "z < Z" "c' < C" "x < X" "y < Y"
  shows "get (assign_channel a c vals) [z, c', x, y]
       = (if c' = c then get vals [z, x, y] else get a [z, c', x, y])"
  using assms by (simp add: assign_channel_def get_def tabulate_nth)

lemma get_fill_channel:
  assumes "shape a = [Z, C, X, Y]" "z < Z" "c' < C" "x < X" "y < Y"
  shows "get (fill_channel a c v) [z, c', x, y] = (if c' = c then v else get a [z, c', x, y])"
  using assms by (simp add: fill_channel_def get_def tabulate_nth)

lemma get_zeros: "in_range s idx \<Longrightarrow> get (zeros s) idx = 0"
  using offset_bound [of s idx] by (simp add: zeros_def get_def)

lemma percentile_ok: "0 \<le> q \<Longrightarrow> q \<le> 100 \<Longrightarrow> a \<noteq> [] \<Longrightarrow> \<exists>v. percentile a q = Inr v"
  by (simp add: percentile_def Let_def)

lemma percentile_nonempty: "percentile a q = Inr v \<Longrightarrow> a \<noteq> []"
  by (auto simp add: percentile_def split: if_splits)

lemma percentile_error_kind:
  "0 \<le> q \<Longrightarrow> q \<le> 100 \<Longrightarrow> percentile a q = Inl e \<Longrightarrow> e = IndexError"
  by (auto simp add: percentile_def Let_def split: if_splits)

lemma channel_length:
  "shape volume = [Z, C, X, Y] \<Longrightarrow> length (data (channel volume c)) = Z * (X * Y)"
  by (simp add: channel_def Let_def tabulate_length)

lemma channel_nonempty:
  "shape volume = [Z, C, X, Y] \<Longrightarrow> data (channel volume c) \<noteq> [] \<longleftrightarrow> 0 < Z \<and> 0 < X \<and> 0 < Y"
proof -
  assume "shape volume = [Z, C, X, Y]"
  then have "length (data (channel volume c)) = Z * (X * Y)"
    by (rule channel_length)
  moreover have "data (channel volume c) \<noteq> [] \<longleftrightarrow> 0 < length (data (channel volume c))"
    by simp
  ultimately show ?thesis by simp
qed

lemma normalize_channel_step:
  assumes vol: "shape volume = [Z, C, X, Y]"
    and nv: "shape nv = [Z, C, X, Y]"
    and c: "c < length ps"
    and ok: "percents_ok ps"
    and ne: "0 < Z" "0 < X" "0 < Y"
  shows "\<exists>nv'. normalize_channel volume ps c nv = Inr nv' \<and> shape nv' = [Z, C, X, Y] \<and>
           valid nv' \<and>
           (\<forall>z<Z. \<forall>c'<C. \<forall>x<X. \<forall>y<Y. get nv' [z, c', x, y] =
              (if c' = c then normalized volume ps c (get volume [z, c, x, y])
               else get nv [z, c', x, y]))"
proof -
  let ?ch = "channel volume c"
  obtain lo hi where p: "ps ! c = (lo, hi)" by (cases "ps ! c")
  have "ps ! c \<in> set ps" using c by simp
  then have rng: "0 \<le> lo" "lo \<le> 100" "0 \<le> hi" "hi \<le> 100"
    using ok p unfolding percents_ok_def by force+
  have samples: "data ?ch \<noteq> []"
    using ne by (simp add: channel_nonempty [OF vol])
  obtain vmin where vmin: "percentile (data ?ch) lo = Inr vmin"
    using percentile_ok [OF rng(1,2) samples] by blast
  obtain vmax where vmax: "percentile (data ?ch) hi = Inr vmax"
    using percentile_ok [OF rng(3,4) samples] by blast
  show ?thesis
  proof (cases "gt vmax vmin")
    case True
    let ?f = "\<lambda>x. clip ((x - the vmin) / (the vmax - the vmin)) 0 1"
    have step: "normalize_channel volume ps c nv = Inr (assign_channel nv c (map_array ?f ?ch))"
      using c p vmin vmax True by (simp add: normalize_channel_def Let_def)
    have val: "get (map_array ?f ?ch) [z, x, y] = ?f (get volume [z, c, x, y])"
      if "z < Z" "x < X" "y < Y" for z x y
      using that vol
      by (simp add: get_map_array valid_channel shape_channel get_channel)
    have "get (assign_channel nv c (map_array ?f ?ch)) [z, c', x, y] =
            (if c' = c then normalized volume ps c (get volume [z, c, x, y])
             else get nv [z, c', x, y])"
      if "z < Z" "c' < C" "x < X" "y < Y" for z c' x y
      using that nv p vmin vmax True
      by (simp add: get_assign_channel val normalized_def)
    then show ?thesis
      using step nv by (simp add: assign_channel_def valid_def tabulate_length)
  next
    case False
    have step: "normalize_channel volume ps c nv = Inr (fill_channel nv c 0)"
      using c p vmin vmax False by (simp add: normalize_channel_def Let_def)
    have "get (fill_channel nv c 0) [z, c', x, y] =
            (if c' = c then normalized volume ps c (get volume [z, c, x, y])
             else get nv [z, c', x, y])"
      if "z < Z" "c' < C" "x < X" "y < Y" for z c' x y
      using that nv p vmin vmax False
      by (simp add: get_fill_channel normalized_def)
    then show ?thesis
      using step nv by (simp add: fill_channel_def valid_def tabulate_length)
  qed
qed

lemma normalize_result:
  assumes vol: "shape volume = [Z, C, X, Y]"
    and len: "C \<le> length ps"
    and ok: "percents_ok ps"
    and ne: "0 < Z" "0 < X" "0 < Y"
  shows "\<exists>out. normalize_channels_with_percentiles volume ps = Inr out \<and>
           shape out = [Z, C, X, Y] \<and> valid out \<and>
           (\<forall>z<Z. \<forall>c<C. \<forall>x<X. \<forall>y<Y.
              get out [z, c, x, y] = normalized volume ps c (get volume [z, c, x, y]))"
proof -
  let ?P = "\<lambda>ds nv. shape nv = [Z, C, X, Y] \<and> valid nv \<and>
     (\<forall>z<Z. \<forall>c<C. \<forall>x<X. \<forall>y<Y. get nv [z, c, x, y] =
        (if c \<in> set ds then normalized volume ps c (get volume [z, c, x, y]) else 0))"
  have "\<exists>out. for_each [0..<C] (normalize_channel volume ps) (zeros (shape volume)) = Inr out
          \<and> ?P [0..<C] out"
  proof (rule for_each_rule)
    show "?P [] (zeros (shape volume))"
      using vol by (simp add: get_zeros) (simp add: zeros_def valid_def)
  next
    fix ds i rest t
    assume P: "?P ds t" and i: "[0..<C] = ds @ i # rest"
    then have "i < length ps" using len upt_split(1) [OF i] by simp
    from normalize_channel_step [OF vol _ this ok ne, of t] P
    obtain t' where t': "normalize_channel volume ps i t = Inr t'" "shape t' = [Z, C, X, Y]"
      "valid t'"
      "\<forall>z<Z. \<forall>c'<C. \<forall>x<X. \<forall>y<Y. get t' [z, c', x, y] =
              (if c' = i then normalized volume ps i (get volume [z, i, x, y])
               else get t [z, c', x, y])"
      by blast
    show "\<exists>t'. normalize_channel volume ps i t = Inr t' \<and> ?P (ds @ [i]) t'"
      using t' P by auto
  qed
  then show ?thesis
    using vol by (simp add: normalize_channels_with_percentiles_def unpack4_def)
qed

lemma percentile_interpolate:
  "percentile a q =
     (if q < 0 \<or> 100 < q then Inl ValueError
      else if a = [] then Inl IndexError
      else Inr (Some (interpolate (sort a) (real (length a - 1) * (q / 100)))))"
  by (simp add: percentile_def interpolate_def Let_def)

lemma floor_index:
  assumes "0 \<le> t" and "t \<le> real (n - 1)"
  shows "nat \<lfloor>t\<rfloor> \<le> n - 1" and "real (nat \<lfloor>t\<rfloor>) \<le> t" and "t < real (nat \<lfloor>t\<rfloor>) + 1"
proof -
  have "\<lfloor>t\<rfloor> \<le> int (n - 1)"
    using assms(2) by (simp add: floor_le_iff)
  then show "nat \<lfloor>t\<rfloor> \<le> n - 1" by simp
  have "0 \<le> \<lfloor>t\<rfloor>" using assms(1) by simp
  then have "real (nat \<lfloor>t\<rfloor>) = of_int \<lfloor>t\<rfloor>" by simp
  then show "real (nat \<lfloor>t\<rfloor>) \<le> t" and "t < real (nat \<lfloor>t\<rfloor>) + 1"
    by linarith+
qed

lemma interpolate_bounds:
  assumes "sorted s" and "s \<noteq> []" and "0 \<le> t" and "t \<le> real (length s - 1)"
  shows "s ! nat \<lfloor>t\<rfloor> \<le> interpolate s t"
    and "interpolate s t \<le> s ! min (nat \<lfloor>t\<rfloor> + 1) (length s - 1)"
proof -
  let ?p = "nat \<lfloor>t\<rfloor>" and ?n = "length s"
  let ?nx = "min (?p + 1) (?n - 1)"
  let ?d = "s ! ?nx - s ! ?p"
  let ?g = "t - real ?p"
  have p: "?p \<le> ?n - 1"
    using floor_index(1) [OF assms(3,4)] .
  have g: "0 \<le> ?g" "?g < 1"
    using floor_index(2,3) [OF assms(3,4)] by linarith+
  have n0: "0 < ?n" using assms(2) by simp
  have "?p \<le> ?nx" using p by simp
  moreover have "?nx < ?n" using n0 by (auto simp add: min_def)
  ultimately have d: "0 \<le> ?d"
    using sorted_nth_mono [OF assms(1), of ?p ?nx] by simp
  have i: "interpolate s t = s ! ?p + ?d * ?g"
    by (simp add: interpolate_def Let_def)
  have "0 \<le> ?d * ?g" using d g by simp
  then show "s ! ?p \<le> interpolate s t" using i by simp
  have "?d * ?g \<le> ?d * 1"
    using d g by (intro mult_left_mono) simp_all
  then show "interpolate s t \<le> s ! ?nx" using i by simp
qed

lemma interpolate_mono:
  assumes "sorted s" and "s \<noteq> []" and "0 \<le> t1" and "t1 \<le> t2" and "t2 \<le> real (length s - 1)"
  shows "interpolate s t1 \<le> interpolate s t2"
proof -
  let ?n = "length s"
  let ?p1 = "nat \<lfloor>t1\<rfloor>" and ?p2 = "nat \<lfloor>t2\<rfloor>"
  have t1: "t1 \<le> real (?n - 1)" and t2: "0 \<le> t2" using assms by simp_all
  have p2: "?p2 \<le> ?n - 1" using floor_index(1) [OF t2 assms(5)] .
  have le: "?p1 \<le> ?p2"
    using assms(4) by (simp add: floor_mono nat_mono)
  show ?thesis
  proof (cases "?p1 = ?p2")
    case True
    let ?nx = "min (?p2 + 1) (?n - 1)"
    let ?d = "s ! ?nx - s ! ?p2"
    have n0: "0 < ?n" using assms(2) by simp
    have "?p2 \<le> ?nx" using p2 by simp
    moreover have "?nx < ?n" using n0 by (auto simp add: min_def)
    ultimately have d: "0 \<le> ?d"
      using sorted_nth_mono [OF assms(1), of ?p2 ?nx] by simp
    have "?d * (t1 - real ?p2) \<le> ?d * (t2 - real ?p2)"
      using d assms(4) by (intro mult_left_mono) simp_all
    then show ?thesis
      using True by (simp add: interpolate_def Let_def)
  next
    case False
    then have lt: "?p1 + 1 \<le> ?p2" using le by simp
    then have nx: "min (?p1 + 1) (?n - 1) = ?p1 + 1" using p2 by simp
    have "?p2 < ?n" using p2 assms(2) by (cases s) simp_all
    then have "s ! (?p1 + 1) \<le> s ! ?p2"
      using sorted_nth_mono [OF assms(1), of "?p1 + 1" ?p2] lt by simp
    moreover have "interpolate s t1 \<le> s ! (?p1 + 1)"
      using interpolate_bounds(2) [OF assms(1,2,3) t1] nx by simp
    moreover have "s ! ?p2 \<le> interpolate s t2"
      using interpolate_bounds(1) [OF assms(1,2) t2 assms(5)] .
    ultimately show ?thesis by simp
  qed
qed

lemma percentile_mono:
  assumes "0 \<le> q1" and "q1 \<le> q2" and "q2 \<le> 100"
    and "percentile a q1 = Inr v1" and "percentile a q2 = Inr v2"
  shows "\<not> gt v1 v2"
proof (cases "a = []")
  case True
  then show ?thesis using assms by (simp add: percentile_interpolate split: if_splits)
next
  case False
  let ?s = "sort a" and ?m = "real (length a - 1)"
  have s: "sorted ?s" "length ?s = length a"
    by simp_all
  have ne: "?s \<noteq> []"
    using False s(2) by (metis length_0_conv)
  have "?m * (q1 / 100) \<le> ?m * (q2 / 100)"
    using assms(2) by (intro mult_left_mono) simp_all
  moreover have "?m * (q2 / 100) \<le> ?m * 1"
    using assms(3) by (intro mult_left_mono) simp_all
  moreover have "0 \<le> ?m * (q1 / 100)"
    using assms(1) by simp
  ultimately have "interpolate ?s (?m * (q1 / 100)) \<le> interpolate ?s (?m * (q2 / 100))"
    using s ne by (intro interpolate_mono) simp_all
  then show ?thesis
    using assms False by (auto simp add: percentile_interpolate split: if_splits)
qed

lemma percentile_constant:
  assumes "set a \<subseteq> {k}" and "percentile a q = Inr v"
  shows "v = Some k"
proof (cases "a = []")
  case True
  then show ?thesis using assms by (simp add: percentile_interpolate split: if_splits)
next
  case False
  let ?s = "sort a" and ?t = "real (length a - 1) * (q / 100)"
  have q: "0 \<le> q" "q \<le> 100"
    using assms(2) by (simp_all add: percentile_interpolate split: if_splits)
  have nth: "?s ! i = k" if "i < length a" for i
  proof -
    have "?s ! i \<in> set ?s" using that by (intro nth_mem) simp
    then show ?thesis using assms(1) by auto
  qed
  have "real (length a - 1) * (q / 100) \<le> real (length a - 1) * 1"
    using q by (intro mult_left_mono) simp_all
  then have "nat \<lfloor>?t\<rfloor> \<le> length a - 1"
    using q by (intro floor_index(1)) simp_all
  then have "nat \<lfloor>?t\<rfloor> < length a" using False by (cases a) simp_all
  moreover have "min (nat \<lfloor>?t\<rfloor> + 1) (length a - 1) < length a"
    using False by (cases a) (simp_all add: min_def)
  ultimately have "interpolate ?s ?t = k"
    by (simp add: interpolate_def Let_def nth)
  then show ?thesis
    using assms(2) False q by (auto simp add: percentile_interpolate)
qed

lemma in_range3:
  "in_range [Z, X, Y] idx \<longleftrightarrow> (\<exists>z x y. idx = [z, x, y] \<and> z < Z \<and> x < X \<and> y < Y)"
proof (cases idx)
  case Nil
  then show ?thesis by simp
next
  case (Cons z r1)
  show ?thesis
  proof (cases r1)
    case Nil
    then show ?thesis using Cons by simp
  next
    case (Cons x r2)
    note c2 = this
    show ?thesis
    proof (cases r2)
      case Nil
      then show ?thesis using c2 \<open>idx = z # r1\<close> by simp
    next
      case (Cons y r3)
      then show ?thesis using c2 \<open>idx = z # r1\<close> by (cases r3) auto
    qed
  qed
qed

lemma tabulate_const_set: "set (tabulate s (\<lambda>_. k)) \<subseteq> {k}"
  by (induction s) (auto simp add: tabulate.simps)

lemma tabulate_set_constant:
  assumes "\<And>idx. in_range s idx \<Longrightarrow> f idx = k"
  shows "set (tabulate s f) \<subseteq> {k}"
proof -
  have "tabulate s f = tabulate s (\<lambda>_. k)"
    using assms by (intro tabulate_cong) simp
  then show ?thesis by (simp add: tabulate_const_set)
qed

lemma channel_constant:
  assumes "shape volume = [Z, C, X, Y]"
    and "\<forall>z<Z. \<forall>x<X. \<forall>y<Y. get volume [z, c, x, y] = k"
  shows "set (data (channel volume c)) \<subseteq> {k}"
proof -
  have "get volume [idx ! 0, c, idx ! 1, idx ! 2] = k" if "in_range [Z, X, Y] idx" for idx
    using that assms(2) by (auto simp add: in_range3)
  then show ?thesis
    using assms(1) by (simp add: channel_def Let_def tabulate_set_constant)
qed

lemma channel_samples:
  assumes "shape volume = [Z, C, X, Y]"
  shows "data (channel volume c)
       = [get volume [z, c, x, y]. z \<leftarrow> [0..<Z], x \<leftarrow> [0..<X], y \<leftarrow> [0..<Y]]"
  using assms by (simp add: channel_def tabulate.simps concat_map_singleton)

section \<open>Normalisation: the claims\<close>

text \<open>
  Claim C1. For a volume of shape \<open>(Z, C, X, Y)\<close> with one percentile pair in \<open>[0, 100]\<close> per
  channel, and a channel \<open>c\<close> whose percentiles \<open>vmin\<close>, \<open>vmax\<close> (linear interpolation over
  the samples of the channel at all \<open>(z, x, y)\<close>) satisfy \<open>vmax > vmin\<close>, normalisation returns
  an array of the same shape whose sample at every \<open>(z, c, x, y)\<close> is
  \<open>clip ((input[z,c,x,y] - vmin) / (vmax - vmin), 0, 1)\<close>, a value in \<open>[0, 1]\<close>.
\<close>

theorem normalize_nondegenerate_window:
  assumes "shape volume = [Z, C, X, Y]" and "valid volume"
    and "length percentiles = C" and "percents_ok percentiles"
    and "c < C"
    and "percentile [get volume [z, c, x, y]. z \<leftarrow> [0..<Z], x \<leftarrow> [0..<X], y \<leftarrow> [0..<Y]]
           (fst (percentiles ! c)) = Inr (Some vmin)"
    and "percentile [get volume [z, c, x, y]. z \<leftarrow> [0..<Z], x \<leftarrow> [0..<X], y \<leftarrow> [0..<Y]]
           (snd (percentiles ! c)) = Inr (Some vmax)"
    and "vmax > vmin"
  shows "\<exists>out. normalize_channels_with_percentiles volume percentiles = Inr out \<and>
           shape out = shape volume \<and>
           (\<forall>z<Z. \<forall>x<X. \<forall>y<Y.
              get out [z, c, x, y] = clip ((get volume [z, c, x, y] - vmin) / (vmax - vmin)) 0 1 \<and>
              0 \<le> get out [z, c, x, y] \<and> get out [z, c, x, y] \<le> 1)"
proof -
  have "data (channel volume c) \<noteq> []"
    using assms(6) unfolding channel_samples [OF assms(1), of c, symmetric]
    by (rule percentile_nonempty)
  then have ne: "0 < Z" "0 < X" "0 < Y"
    by (simp_all add: channel_nonempty [OF assms(1)])
  from normalize_result [OF assms(1) _ assms(4) ne] assms(3)
  obtain out where out: "normalize_channels_with_percentiles volume percentiles = Inr out"
    "shape out = [Z, C, X, Y]"
    "\<forall>z<Z. \<forall>c<C. \<forall>x<X. \<forall>y<Y.
        get out [z, c, x, y] = normalized volume percentiles c (get volume [z, c, x, y])"
    by auto
  have "normalized volume percentiles c v = clip ((v - vmin) / (vmax - vmin)) 0 1" for v
    using assms(6-8) by (simp add: normalized_def channel_samples [OF assms(1)])
  moreover have "0 \<le> clip v 0 1 \<and> clip v 0 1 \<le> 1" for v
    by (simp add: clip_def)
  ultimately show ?thesis
    using out assms(1,5) by simp
qed

theorem normalize_nondegenerate_window_witness:
  "\<exists>out. normalize_channels_with_percentiles
            \<lparr>shape = [1, 1, 1, 3], data = [5, 0, 20]\<rparr> [(0, 100)] = Inr out \<and>
         shape out = [1, 1, 1, 3] \<and>
         get out [0, 0, 0, 0] = 1 / 4 \<and> get out [0, 0, 0, 1] = 0 \<and> get out [0, 0, 0, 2] = 1"
proof -
  let ?v = "\<lparr>shape = [1, 1, 1, 3], data = [5, 0, 20]\<rparr>"
  have ch: "[get ?v [z, 0, x, y]. z \<leftarrow> [0..<1], x \<leftarrow> [0..<1], y \<leftarrow> [0..<3]] = [5, 0, 20]"
    by code_simp
  have h1: "shape ?v = [1, 1, 1, 3]" and h2: "valid ?v"
    and h3: "length [(0, 100 :: real)] = 1" and h4: "percents_ok [(0, 100)]"
    and h5: "(0 :: nat) < 1"
    by (simp_all add: valid_def percents_ok_def)
  have h6: "percentile [get ?v [z, 0, x, y]. z \<leftarrow> [0..<1], x \<leftarrow> [0..<1], y \<leftarrow> [0..<3]]
      (fst ([(0, 100)] ! 0)) = Inr (Some 0)"
    unfolding ch by (simp add: percentile_def Let_def)
  have h7: "percentile [get ?v [z, 0, x, y]. z \<leftarrow> [0..<1], x \<leftarrow> [0..<1], y \<leftarrow> [0..<3]]
      (snd ([(0, 100)] ! 0)) = Inr (Some 20)"
    unfolding ch by (simp add: percentile_def Let_def)
  have h8: "(20 :: real) > 0" by simp
  from normalize_nondegenerate_window [OF h1 h2 h3 h4 h5 h6 h7 h8]
  obtain out where out: "normalize_channels_with_percentiles ?v [(0, 100)] = Inr out"
    "shape out = shape ?v"
    "\<forall>z<1. \<forall>x<1. \<forall>y<3.
       get out [z, 0, x, y] = clip ((get ?v [z, 0, x, y] - 0) / (20 - 0)) 0 1 \<and>
       0 \<le> get out [z, 0, x, y] \<and> get out [z, 0, x, y] \<le> 1"
    by blast
  have "get out [0, 0, 0, 0] = 1 / 4"
    using out(3) [rule_format, of 0 0 0] by (simp add: get_def offset.simps clip_def)
  moreover have "get out [0, 0, 0, 1] = 0"
    using out(3) [rule_format, of 0 0 1] by (simp add: get_def offset.simps clip_def)
  moreover have "get out [0, 0, 0, 2] = 1"
    using out(3) [rule_format, of 0 0 2] by (simp add: get_def offset.simps clip_def)
  ultimately show ?thesis
    using out(1,2) by simp
qed

text \<open>
  Claim C2. For a channel \<open>c\<close> whose percentile window is degenerate or inverted, that is,
  whose percentiles \<open>vmin\<close> and \<open>vmax\<close> satisfy \<open>vmax \<le> vmin\<close>, normalisation raises no error
  and every output sample of that channel is exactly 0. In a volume that has samples this
  covers a low percentile above the high one and a channel whose samples are all equal. (A
  volume without samples has no percentiles: there \<open>np.percentile\<close> raises, whatever the
  window.)
\<close>

theorem normalize_degenerate_window:
  assumes "shape volume = [Z, C, X, Y]" and "valid volume"
    and "length percentiles = C" and "percents_ok percentiles"
    and "c < C"
    and "(\<exists>vmin vmax.
            percentile [get volume [z, c, x, y]. z \<leftarrow> [0..<Z], x \<leftarrow> [0..<X], y \<leftarrow> [0..<Y]]
              (fst (percentiles ! c)) = Inr (Some vmin) \<and>
            percentile [get volume [z, c, x, y]. z \<leftarrow> [0..<Z], x \<leftarrow> [0..<X], y \<leftarrow> [0..<Y]]
              (snd (percentiles ! c)) = Inr (Some vmax) \<and>
            vmax \<le> vmin)
         \<or> (0 < Z \<and> 0 < X \<and> 0 < Y \<and>
             (snd (percentiles ! c) < fst (percentiles ! c)
              \<or> (\<exists>k. \<forall>z<Z. \<forall>x<X. \<forall>y<Y. get volume [z, c, x, y] = k)))"
  shows "\<exists>out. normalize_channels_with_percentiles volume percentiles = Inr out \<and>
           shape out = shape volume \<and>
           (\<forall>z<Z. \<forall>x<X. \<forall>y<Y. get out [z, c, x, y] = 0)"
proof -
  let ?ch = "data (channel volume c)"
  note samples = channel_samples [OF assms(1), of c, symmetric]
  obtain lo hi where p: "percentiles ! c = (lo, hi)" by (cases "percentiles ! c")
  have "percentiles ! c \<in> set percentiles" using assms(3,5) by simp
  then have rng: "0 \<le> lo" "lo \<le> 100" "0 \<le> hi" "hi \<le> 100"
    using assms(4) p unfolding percents_ok_def by force+
  have "?ch \<noteq> []"
    using assms(6) unfolding samples
  proof (elim disjE exE conjE)
    fix a b
    assume "percentile ?ch (fst (percentiles ! c)) = Inr (Some a)"
    then show ?thesis by (rule percentile_nonempty)
  next
    assume "0 < Z" "0 < X" "0 < Y"
    then show ?thesis by (simp add: channel_nonempty [OF assms(1)])
  next
    assume "0 < Z" "0 < X" "0 < Y"
    then show ?thesis by (simp add: channel_nonempty [OF assms(1)])
  qed
  then have ne: "0 < Z" "0 < X" "0 < Y" and ch: "?ch \<noteq> []"
    by (simp_all add: channel_nonempty [OF assms(1)])
  obtain vmin where vmin: "percentile ?ch lo = Inr vmin"
    using percentile_ok [OF rng(1,2) ch] by blast
  obtain vmax where vmax: "percentile ?ch hi = Inr vmax"
    using percentile_ok [OF rng(3,4) ch] by blast
  have deg: "\<not> gt vmax vmin"
    using assms(6) unfolding samples
  proof (elim disjE exE conjE)
    fix a b
    assume "percentile ?ch (fst (percentiles ! c)) = Inr (Some a)"
      "percentile ?ch (snd (percentiles ! c)) = Inr (Some b)" "b \<le> a"
    then show ?thesis using p vmin vmax by simp
  next
    assume "snd (percentiles ! c) < fst (percentiles ! c)"
    then have "hi \<le> lo" using p by simp
    then show ?thesis
      using percentile_mono [OF rng(3) _ rng(2) vmax vmin] by simp
  next
    fix k
    assume "\<forall>z<Z. \<forall>x<X. \<forall>y<Y. get volume [z, c, x, y] = k"
    then have "set ?ch \<subseteq> {k}"
      using assms(1) by (intro channel_constant)
    then have "vmin = Some k \<and> vmax = Some k"
      using percentile_constant vmin vmax by blast
    then show ?thesis by simp
  qed
  from normalize_result [OF assms(1) _ assms(4) ne] assms(3)
  obtain out where out: "normalize_channels_with_percentiles volume percentiles = Inr out"
    "shape out = [Z, C, X, Y]"
    "\<forall>z<Z. \<forall>c<C. \<forall>x<X. \<forall>y<Y.
        get out [z, c, x, y] = normalized volume percentiles c (get volume [z, c, x, y])"
    by auto
  have "normalized volume percentiles c v = 0" for v
    using p vmin vmax deg by (simp add: normalized_def)
  then show ?thesis
    using out assms(1,5) by simp
qed

theorem normalize_degenerate_window_witness:
  "\<exists>out. normalize_channels_with_percentiles
            \<lparr>shape = [1, 2, 1, 2], data = [0, 10, 5, 5]\<rparr> [(0, 100), (1, 99)] = Inr out \<and>
         get out [0, 1, 0, 0] = 0 \<and> get out [0, 1, 0, 1] = 0"
proof -
  let ?v = "\<lparr>shape = [1, 2, 1, 2], data = [0, 10, 5, 5]\<rparr>"
  let ?ps = "[(0, 100), (1, 99 :: real)]"
  have ch: "[get ?v [z, 1, x, y]. z \<leftarrow> [0..<1], x \<leftarrow> [0..<1], y \<leftarrow> [0..<2]] = [5, 5]"
    by code_simp
  have h1: "shape ?v = [1, 2, 1, 2]" and h2: "valid ?v"
    and h3: "length ?ps = 2" and h4: "percents_ok ?ps"
    and h5: "(1 :: nat) < 2"
    by (simp_all add: valid_def percents_ok_def)
  have p1: "percentile [get ?v [z, 1, x, y]. z \<leftarrow> [0..<1], x \<leftarrow> [0..<1], y \<leftarrow> [0..<2]]
      (fst (?ps ! 1)) = Inr (Some 5)"
    unfolding ch by (simp add: percentile_def Let_def)
  have p2: "percentile [get ?v [z, 1, x, y]. z \<leftarrow> [0..<1], x \<leftarrow> [0..<1], y \<leftarrow> [0..<2]]
      (snd (?ps ! 1)) = Inr (Some 5)"
    unfolding ch by (simp add: percentile_def Let_def)
  have h6: "(\<exists>vmin vmax.
            percentile [get ?v [z, 1, x, y]. z \<leftarrow> [0..<1], x \<leftarrow> [0..<1], y \<leftarrow> [0..<2]]
              (fst (?ps ! 1)) = Inr (Some vmin) \<and>
            percentile [get ?v [z, 1, x, y]. z \<leftarrow> [0..<1], x \<leftarrow> [0..<1], y \<leftarrow> [0..<2]]
              (snd (?ps ! 1)) = Inr (Some vmax) \<and>
            vmax \<le> vmin)
         \<or> ((0 :: nat) < 1 \<and> (0 :: nat) < 1 \<and> (0 :: nat) < 2 \<and>
             (snd (?ps ! 1) < fst (?ps ! 1)
              \<or> (\<exists>k. \<forall>z<1. \<forall>x<1. \<forall>y<2. get ?v [z, 1, x, y] = k)))"
    using p1 p2 by (intro disjI1 exI [of _ 5]) simp
  from normalize_degenerate_window [OF h1 h2 h3 h4 h5 h6]
  obtain out where out: "normalize_channels_with_percentiles ?v ?ps = Inr out"
    "\<forall>z<1. \<forall>x<1. \<forall>y<2. get out [z, 1, x, y] = 0"
    by blast
  have "get out [0, 1, 0, 0] = 0" using out(2) [rule_format, of 0 0 0] by simp
  moreover have "get out [0, 1, 0, 1] = 0" using out(2) [rule_format, of 0 0 1] by simp
  ultimately show ?thesis using out(1) by simp
qed

lemma in_range2: "in_range [X, Y] idx \<longleftrightarrow> (\<exists>x y. idx = [x, y] \<and> x < X \<and> y < Y)"
proof (cases idx)
  case Nil
  then show ?thesis by simp
next
  case (Cons x r1)
  note c1 = this
  show ?thesis
  proof (cases r1)
    case Nil
    then show ?thesis using c1 by simp
  next
    case (Cons y r2)
    then show ?thesis using c1 by (cases r2) auto
  qed
qed

lemma index2_result:
  assumes "shape a = [Z, C, X, Y]" and "z < Z" and "c < C"
  shows "\<exists>gray. index2 a z c = Inr gray \<and> shape gray = [X, Y] \<and> valid gray \<and>
           (\<forall>x<X. \<forall>y<Y. get gray [x, y] = get a [z, c, x, y])"
  using assms by (simp add: index2_def Let_def valid_def tabulate_length get_tabulate)

lemma index2_error:
  assumes "shape a = [Z, C, X, Y]" and "C \<le> c"
  shows "index2 a z c = Inl IndexError"
  using assms by (simp add: index2_def)

lemma add_plane_shape: "shape (add_plane a z k plane) = shape a"
  by (simp add: add_plane_def)

lemma add_plane_valid: "valid (add_plane a z k plane)"
  by (simp add: add_plane_def valid_def tabulate_length)

lemma get_add_plane:
  assumes "shape a = [Z, X, Y, K]" "z' < Z" "x < X" "y < Y" "k' < K"
  shows "get (add_plane a z k plane) [z', x, y, k']
       = (if z' = z \<and> k' = k then get a [z', x, y, k'] + get plane [x, y]
          else get a [z', x, y, k'])"
  using assms by (simp add: add_plane_def get_def tabulate_nth)

lemma get_index1:
  assumes "shape a = [Z, X, Y, K]" "x < X" "y < Y" "k < K"
  shows "get (index1 a z) [x, y, k] = get a [z, x, y, k]"
  using assms by (simp add: index1_def get_tabulate)

lemma index1_shape: "shape (index1 a z) = tl (shape a)"
  by (simp add: index1_def)

lemma index1_valid: "valid (index1 a z)"
  by (simp add: index1_def valid_def tabulate_length)

lemma assign_slice_shape: "shape (assign_slice a z vals) = shape a"
  by (simp add: assign_slice_def)

lemma assign_slice_valid: "valid (assign_slice a z vals)"
  by (simp add: assign_slice_def valid_def tabulate_length)

lemma get_assign_slice:
  assumes "shape a = [Z, X, Y, K]" "z' < Z" "x < X" "y < Y" "k < K"
  shows "get (assign_slice a z vals) [z', x, y, k]
       = (if z' = z then get vals [x, y, k] else get a [z', x, y, k])"
  using assms by (simp add: assign_slice_def get_def tabulate_nth)

lemma add_channel_step:
  assumes vol: "shape volume = [Z, C, X, Y]"
    and rgb: "shape rgb = [Z, X, Y, 3]" "valid rgb"
    and z: "z < Z"
    and c: "c < length visibility" "visibility ! c \<Longrightarrow> c < C"
  shows "\<exists>rgb'. add_channel volume visibility z (c, col) rgb = Inr rgb' \<and>
           shape rgb' = [Z, X, Y, 3] \<and> valid rgb' \<and>
           (\<forall>z'<Z. \<forall>x<X. \<forall>y<Y. \<forall>k<3. get rgb' [z', x, y, k] =
              get rgb [z', x, y, k] +
              (if z' = z \<and> visibility ! c then get volume [z, c, x, y] * component col k else 0))"
proof (cases "visibility ! c")
  case False
  then show ?thesis
    using rgb c(1) by (cases col) (simp add: add_channel_def)
next
  case True
  obtain r g b where col: "col = (r, g, b)" by (cases col)
  from index2_result [OF vol z c(2) [OF True]]
  obtain gray where gray: "index2 volume z c = Inr gray" "shape gray = [X, Y]" "valid gray"
    "\<forall>x<X. \<forall>y<Y. get gray [x, y] = get volume [z, c, x, y]"
    by blast
  have m: "get (map_array (\<lambda>v. v * w) gray) [x, y] = get volume [z, c, x, y] * w"
    if "x < X" "y < Y" for x y w
    using that gray by (simp add: get_map_array)
  let ?rgb1 = "add_plane rgb z 0 (map_array (\<lambda>v. v * r) gray)"
  let ?rgb2 = "add_plane ?rgb1 z 1 (map_array (\<lambda>v. v * g) gray)"
  let ?rgb3 = "add_plane ?rgb2 z 2 (map_array (\<lambda>v. v * b) gray)"
  have step: "add_channel volume visibility z (c, col) rgb = Inr ?rgb3"
    using True c(1) gray(1) col by (simp add: add_channel_def Let_def)
  have s1: "shape ?rgb1 = [Z, X, Y, 3]" and s2: "shape ?rgb2 = [Z, X, Y, 3]"
    using rgb(1) by (simp_all add: add_plane_shape)
  have "get ?rgb3 [z', x, y, k] =
          get rgb [z', x, y, k] +
          (if z' = z \<and> visibility ! c then get volume [z, c, x, y] * component col k else 0)"
    if "z' < Z" "x < X" "y < Y" "k < 3" for z' x y k
  proof -
    have k: "k = 0 \<or> k = 1 \<or> k = 2" using that(4) by auto
    have aux: "get (add_plane a z k0 (map_array (\<lambda>v. v * w) gray)) [z', x, y, k] =
        (if z' = z \<and> k = k0 then get a [z', x, y, k] + get volume [z, c, x, y] * w
         else get a [z', x, y, k])"
      if "shape a = [Z, X, Y, 3]" for a k0 w
      using that \<open>z' < Z\<close> \<open>x < X\<close> \<open>y < Y\<close> \<open>k < 3\<close>
      by (simp add: get_add_plane m)
    have "get ?rgb3 [z', x, y, k] =
        (if z' = z \<and> k = 2 then get ?rgb2 [z', x, y, k] + get volume [z, c, x, y] * b
         else get ?rgb2 [z', x, y, k])"
      by (rule aux [OF s2])
    moreover have "get ?rgb2 [z', x, y, k] =
        (if z' = z \<and> k = 1 then get ?rgb1 [z', x, y, k] + get volume [z, c, x, y] * g
         else get ?rgb1 [z', x, y, k])"
      by (rule aux [OF s1])
    moreover have "get ?rgb1 [z', x, y, k] =
        (if z' = z \<and> k = 0 then get rgb [z', x, y, k] + get volume [z, c, x, y] * r
         else get rgb [z', x, y, k])"
      by (rule aux [OF rgb(1)])
    ultimately show ?thesis
      using k True col by (auto simp add: component_def)
  qed
  then show ?thesis
    using step rgb(1) by (simp add: add_plane_shape add_plane_valid)
qed

lemma enumerate_map: "enumerate 0 xs = map (\<lambda>c. (c, xs ! c)) [0..<length xs]"
  by (rule nth_equalityI) (simp_all add: nth_enumerate_eq)

lemma weighted_sum_enumerate:
  "sum_list (map (\<lambda>(c, col). if visibility ! c then get volume [z, c, x, y] * component col k else 0)
      (enumerate 0 colors))
   = weighted_sum volume colors visibility z x y k"
  by (simp add: enumerate_map weighted_sum_def sum_list_map_filter' comp_def)

lemma channels_loop:
  assumes vol: "shape volume = [Z, C, X, Y]"
    and rgb: "shape rgb = [Z, X, Y, 3]" "valid rgb"
    and z: "z < Z"
    and ok: "colors_ok C colors visibility"
  shows "\<exists>rgb'. for_each (enumerate 0 colors) (add_channel volume visibility z) rgb = Inr rgb' \<and>
           shape rgb' = [Z, X, Y, 3] \<and> valid rgb' \<and>
           (\<forall>z'<Z. \<forall>x<X. \<forall>y<Y. \<forall>k<3. get rgb' [z', x, y, k] =
              get rgb [z', x, y, k] +
              (if z' = z then weighted_sum volume colors visibility z x y k else 0))"
proof -
  let ?contrib = "\<lambda>x y k (c, col).
     if visibility ! c then get volume [z, c, x, y] * component col k else 0"
  let ?P = "\<lambda>ds t. shape t = [Z, X, Y, 3] \<and> valid t \<and>
     (\<forall>z'<Z. \<forall>x<X. \<forall>y<Y. \<forall>k<3. get t [z', x, y, k] =
        get rgb [z', x, y, k] + (if z' = z then sum_list (map (?contrib x y k) ds) else 0))"
  have "\<exists>rgb'. for_each (enumerate 0 colors) (add_channel volume visibility z) rgb = Inr rgb'
          \<and> ?P (enumerate 0 colors) rgb'"
  proof (rule for_each_rule)
    show "?P [] rgb" using rgb by simp
  next
    fix ds i rest t
    assume P: "?P ds t" and "enumerate 0 colors = ds @ i # rest"
    then have i: "i \<in> set (enumerate 0 colors)" by simp
    obtain c col where ic: "i = (c, col)" by (cases i)
    have c: "c < length colors" using i ic by (simp add: in_set_enumerate_eq)
    then have c1: "c < length visibility" and c2: "visibility ! c \<Longrightarrow> c < C"
      using ok by (simp_all add: colors_ok_def)
    from add_channel_step [OF vol _ _ z c1 c2, of t col] P
    obtain t' where t': "add_channel volume visibility z (c, col) t = Inr t'"
      "shape t' = [Z, X, Y, 3]" "valid t'"
      "\<forall>z'<Z. \<forall>x<X. \<forall>y<Y. \<forall>k<3. get t' [z', x, y, k] =
              get t [z', x, y, k] +
              (if z' = z \<and> visibility ! c then get volume [z, c, x, y] * component col k else 0)"
      by blast
    have "?P (ds @ [i]) t'"
      using t'(2-4) P ic by simp
    then show "\<exists>t'. add_channel volume visibility z i t = Inr t' \<and> ?P (ds @ [i]) t'"
      using t'(1) ic by blast
  qed
  then show ?thesis
    by (simp only: weighted_sum_enumerate)
qed

lemma composite_slice_step:
  assumes vol: "shape volume = [Z, C, X, Y]"
    and rgb: "shape rgb = [Z, X, Y, 3]" "valid rgb"
    and z: "z < Z"
    and ok: "colors_ok C colors visibility"
  shows "\<exists>rgb'. composite_slice volume colors visibility z rgb = Inr rgb' \<and>
           shape rgb' = [Z, X, Y, 3] \<and> valid rgb' \<and>
           (\<forall>z'<Z. \<forall>x<X. \<forall>y<Y. \<forall>k<3. get rgb' [z', x, y, k] =
              (if z' = z
               then clip (get rgb [z, x, y, k] + weighted_sum volume colors visibility z x y k) 0 1
               else get rgb [z', x, y, k]))"
proof -
  from channels_loop [OF assms]
  obtain t where t: "for_each (enumerate 0 colors) (add_channel volume visibility z) rgb = Inr t"
    "shape t = [Z, X, Y, 3]" "valid t"
    "\<forall>z'<Z. \<forall>x<X. \<forall>y<Y. \<forall>k<3. get t [z', x, y, k] =
        get rgb [z', x, y, k] +
        (if z' = z then weighted_sum volume colors visibility z x y k else 0)"
    by blast
  let ?clipped = "map_array (\<lambda>v. clip v 0 1) (index1 t z)"
  have step: "composite_slice volume colors visibility z rgb = Inr (assign_slice t z ?clipped)"
    using t(1) by (simp add: composite_slice_def)
  have "get ?clipped [x, y, k] = clip (get t [z, x, y, k]) 0 1"
    if "x < X" "y < Y" "k < 3" for x y k
    using that t(2) by (simp add: get_map_array index1_valid index1_shape get_index1)
  then have "get (assign_slice t z ?clipped) [z', x, y, k] =
      (if z' = z
       then clip (get rgb [z, x, y, k] + weighted_sum volume colors visibility z x y k) 0 1
       else get rgb [z', x, y, k])"
    if "z' < Z" "x < X" "y < Y" "k < 3" for z' x y k
    using that t(2,4) z by (simp add: get_assign_slice)
  then show ?thesis
    using step t(2) by (simp add: assign_slice_shape assign_slice_valid)
qed

lemma render_result:
  assumes vol: "shape volume = [Z, C, X, Y]"
    and ok: "colors_ok C colors visibility"
  shows "\<exists>out. multichannel_to_rgb_stack volume colors visibility = Inr out \<and>
           shape out = [Z, X, Y, 3] \<and> valid out \<and>
           (\<forall>z<Z. \<forall>x<X. \<forall>y<Y. \<forall>k<3. get out [z, x, y, k] =
              clip (weighted_sum volume colors visibility z x y k) 0 1)"
proof -
  let ?P = "\<lambda>ds t. shape t = [Z, X, Y, 3] \<and> valid t \<and>
     (\<forall>z<Z. \<forall>x<X. \<forall>y<Y. \<forall>k<3. get t [z, x, y, k] =
        (if z \<in> set ds then clip (weighted_sum volume colors visibility z x y k) 0 1 else 0))"
  have "\<exists>out. for_each [0..<Z] (composite_slice volume colors visibility) (zeros [Z, X, Y, 3])
           = Inr out \<and> ?P [0..<Z] out"
  proof (rule for_each_rule)
    show "?P [] (zeros [Z, X, Y, 3])"
      by (simp add: get_zeros) (simp add: zeros_def valid_def)
  next
    fix ds z rest t
    assume P: "?P ds t" and split: "[0..<Z] = ds @ z # rest"
    have z: "z < Z" and new: "z \<notin> set ds"
      using upt_split [OF split] by simp_all
    from composite_slice_step [OF vol _ _ z ok, of t] P
    obtain t' where t': "composite_slice volume colors visibility z t = Inr t'"
      "shape t' = [Z, X, Y, 3]" "valid t'"
      "\<forall>z'<Z. \<forall>x<X. \<forall>y<Y. \<forall>k<3. get t' [z', x, y, k] =
            (if z' = z
             then clip (get t [z, x, y, k] + weighted_sum volume colors visibility z x y k) 0 1
             else get t [z', x, y, k])"
      by blast
    have "?P (ds @ [z]) t'"
      using t'(2-4) P new z by simp
    then show "\<exists>t'. composite_slice volume colors visibility z t = Inr t' \<and> ?P (ds @ [z]) t'"
      using t'(1) by blast
  qed
  then show ?thesis
    using vol by (simp add: multichannel_to_rgb_stack_def unpack4_def)
qed

lemma in_range_Nil: "in_range [] idx \<longleftrightarrow> idx = []"
  by (cases idx) simp_all

lemma in_range_Cons: "in_range (n # ns) idx \<longleftrightarrow> (\<exists>i is. idx = i # is \<and> i < n \<and> in_range ns is)"
  by (cases idx) simp_all

lemma concat_take_drop:
  "concat (map (\<lambda>i. take m (drop (k + i * m) d)) [0..<n]) = take (n * m) (drop k d)"
proof (induction n)
  case 0
  then show ?case by simp
next
  case (Suc n)
  have "take (m + n * m) (drop k d) = take (n * m + m) (drop k d)"
    by (simp add: add.commute)
  also have "\<dots> = take (n * m) (drop k d) @ take m (drop (n * m) (drop k d))"
    by (rule take_add)
  finally have "take (m + n * m) (drop k d)
      = take (n * m) (drop k d) @ take m (drop (k + n * m) d)"
    by (simp add: add.commute)
  then show ?case using Suc by simp
qed

lemma tabulate_buffer_slice:
  "k + prod_list s \<le> length d \<Longrightarrow>
     tabulate s (\<lambda>idx. d ! (k + offset s idx)) = take (prod_list s) (drop k d)"
proof (induction s arbitrary: k)
  case Nil
  then have "k < length d" by simp
  then have "take (Suc 0) (drop k d) = [d ! k]"
    by (simp add: take_Suc_conv_app_nth)
  then show ?case by (simp add: tabulate.simps offset.simps)
next
  case (Cons n ns)
  let ?m = "prod_list ns"
  have "tabulate ns (\<lambda>is. d ! (k + offset (n # ns) (i # is))) = take ?m (drop (k + i * ?m) d)"
    if "i < n" for i
  proof -
    have "Suc i * ?m \<le> n * ?m"
      using that by (intro mult_le_mono1) simp
    then have "(k + i * ?m) + ?m \<le> length d"
      using Cons.prems by simp
    then have "tabulate ns (\<lambda>is. d ! ((k + i * ?m) + offset ns is)) = take ?m (drop (k + i * ?m) d)"
      by (rule Cons.IH)
    then show ?thesis by (simp add: offset.simps add.assoc)
  qed
  then have "map (\<lambda>i. tabulate ns (\<lambda>is. d ! (k + offset (n # ns) (i # is)))) [0..<n]
      = map (\<lambda>i. take ?m (drop (k + i * ?m) d)) [0..<n]"
    by (intro map_cong) simp_all
  then have "tabulate (n # ns) (\<lambda>idx. d ! (k + offset (n # ns) idx))
      = concat (map (\<lambda>i. take ?m (drop (k + i * ?m) d)) [0..<n])"
    by (simp only: tabulate.simps)
  then show ?case by (simp add: concat_take_drop)
qed

lemma tabulate_get:
  assumes "valid a"
  shows "tabulate (shape a) (get a) = data a"
proof -
  have "get a = (\<lambda>idx. data a ! (0 + offset (shape a) idx))"
    by (rule ext) (simp add: get_def)
  then show ?thesis
    using tabulate_buffer_slice [of 0 "shape a" "data a"] assms
    by (simp add: valid_def)
qed

lemma array_ext:
  assumes "valid a" and "valid b" and "shape a = shape b"
    and "\<And>idx. in_range (shape a) idx \<Longrightarrow> get a idx = get b idx"
  shows "a = b"
proof -
  have "data a = tabulate (shape a) (get a)"
    using assms(1) by (simp add: tabulate_get)
  also have "\<dots> = tabulate (shape a) (get b)"
    using assms(4) by (intro tabulate_cong) simp
  also have "\<dots> = data b"
    using assms(2,3) by (simp add: tabulate_get)
  finally show ?thesis
    using assms(3) by simp
qed

lemma array_ext4:
  assumes "valid a" and "valid b" and "shape a = [n1, n2, n3, n4]" and "shape b = [n1, n2, n3, n4]"
    and "\<And>i j k l. i < n1 \<Longrightarrow> j < n2 \<Longrightarrow> k < n3 \<Longrightarrow> l < n4 \<Longrightarrow> get a [i, j, k, l] = get b [i, j, k, l]"
  shows "a = b"
proof (rule array_ext [OF assms(1,2)])
  show "shape a = shape b" using assms(3,4) by simp
next
  fix idx
  assume "in_range (shape a) idx"
  then obtain i j k l where "idx = [i, j, k, l]" "i < n1" "j < n2" "k < n3" "l < n4"
    using assms(3) by (auto simp add: in_range_Cons in_range_Nil)
  then show "get a idx = get b idx"
    using assms(5) by simp
qed

section \<open>Compositing: the claims\<close>

text \<open>
  Claim C3. For a normalised volume of shape \<open>(Z, C, X, Y)\<close> and colour triples and visibility
  flags of length \<open>C\<close>, rendering returns an array of shape \<open>(Z, X, Y, 3)\<close> whose sample at
  \<open>(z, x, y, k)\<close> is the sum, over the visible channels \<open>c\<close>, of \<open>volume[z,c,x,y] * color[c][k]\<close>,
  clamped to \<open>[0, 1]\<close> after the whole sum has been formed; so every sample lies in \<open>[0, 1]\<close>.
\<close>

theorem render_clamped_sum:
  assumes "shape volume = [Z, C, X, Y]" and "valid volume"
    and "length channel_colors = C" and "length visibility = C"
  shows "\<exists>out. multichannel_to_rgb_stack volume channel_colors visibility = Inr out \<and>
           shape out = [Z, X, Y, 3] \<and>
           (\<forall>z<Z. \<forall>x<X. \<forall>y<Y. \<forall>k<3.
              get out [z, x, y, k] =
                min 1 (max 0 (sum_list (map
                  (\<lambda>c. get volume [z, c, x, y] * component (channel_colors ! c) k)
                  (filter (\<lambda>c. visibility ! c) [0..<C])))) \<and>
              0 \<le> get out [z, x, y, k] \<and> get out [z, x, y, k] \<le> 1)"
proof -
  have ok: "colors_ok C channel_colors visibility"
    using assms(3,4) by (simp add: colors_ok_def)
  from render_result [OF assms(1) ok]
  obtain out where out: "multichannel_to_rgb_stack volume channel_colors visibility = Inr out"
    "shape out = [Z, X, Y, 3]"
    "\<forall>z<Z. \<forall>x<X. \<forall>y<Y. \<forall>k<3. get out [z, x, y, k] =
        clip (weighted_sum volume channel_colors visibility z x y k) 0 1"
    by blast
  have "clip v 0 1 = min 1 (max 0 v) \<and> 0 \<le> clip v 0 1 \<and> clip v 0 1 \<le> 1" for v
    by (simp add: clip_def min_def max_def)
  then show ?thesis
    using out assms(3) by (simp add: weighted_sum_def)
qed

theorem render_clamped_sum_witness:
  "\<exists>out. multichannel_to_rgb_stack \<lparr>shape = [1, 2, 1, 1], data = [7 / 10, 7 / 10]\<rparr>
            [(1, 0, 0), (1, 0, 0)] [True, True] = Inr out \<and>
         get out [0, 0, 0, 0] = 1 \<and> get out [0, 0, 0, 1] = 0 \<and> get out [0, 0, 0, 2] = 0"
proof -
  let ?v = "\<lparr>shape = [1, 2, 1, 1], data = [7 / 10, 7 / 10]\<rparr>"
  let ?cs = "[(1, 0, 0), (1, 0, 0 :: real)] :: (real \<times> real \<times> real) list"
  let ?vis = "[True, True]"
  have h1: "shape ?v = [1, 2, 1, 1]" and h2: "valid ?v"
    and h3: "length ?cs = 2" and h4: "length ?vis = 2"
    by (simp_all add: valid_def)
  from render_clamped_sum [OF h1 h2 h3 h4]
  obtain out where out: "multichannel_to_rgb_stack ?v ?cs ?vis = Inr out"
    "\<forall>z<1. \<forall>x<1. \<forall>y<1. \<forall>k<3.
              get out [z, x, y, k] =
                min 1 (max 0 (sum_list (map
                  (\<lambda>c. get ?v [z, c, x, y] * component (?cs ! c) k)
                  (filter (\<lambda>c. ?vis ! c) [0..<2])))) \<and>
              0 \<le> get out [z, x, y, k] \<and> get out [z, x, y, k] \<le> 1"
    by blast
  have u: "[0..<2] = [0, 1]" by (simp add: upt_rec)
  have "get out [0, 0, 0, 0] = 1"
    using out(2) [rule_format, of 0 0 0 0] by (simp add: u get_def offset.simps component_def)
  moreover have "get out [0, 0, 0, 1] = 0"
    using out(2) [rule_format, of 0 0 0 1] by (simp add: u get_def offset.simps component_def)
  moreover have "get out [0, 0, 0, 2] = 0"
    using out(2) [rule_format, of 0 0 0 2] by (simp add: u get_def offset.simps component_def)
  ultimately show ?thesis using out(1) by simp
qed

lemma valid_zeros: "valid (zeros s)"
  by (simp add: zeros_def valid_def)

lemma shape_zeros: "shape (zeros s) = s"
  by (simp add: zeros_def)

lemma weighted_sum_cong:
  assumes "length colors1 = length colors2"
    and "\<And>c. c < length colors1 \<Longrightarrow> visibility ! c \<Longrightarrow>
           colors1 ! c = colors2 ! c \<and> get v1 [z, c, x, y] = get v2 [z, c, x, y]"
  shows "weighted_sum v1 colors1 visibility z x y k = weighted_sum v2 colors2 visibility z x y k"
proof -
  have "map (\<lambda>c. get v1 [z, c, x, y] * component (colors1 ! c) k)
          (filter (\<lambda>c. visibility ! c) [0..<length colors1])
      = map (\<lambda>c. get v2 [z, c, x, y] * component (colors2 ! c) k)
          (filter (\<lambda>c. visibility ! c) [0..<length colors1])"
    using assms(2) by (intro map_cong) simp_all
  then show ?thesis
    unfolding weighted_sum_def assms(1) [symmetric] by (rule arg_cong)
qed

lemma weighted_sum_invisible:
  assumes "\<And>c. c < length colors \<Longrightarrow> \<not> visibility ! c"
  shows "weighted_sum volume colors visibility z x y k = 0"
proof -
  have "filter (\<lambda>c. visibility ! c) [0..<length colors] = []"
    using assms by (simp add: filter_empty_conv)
  then show ?thesis by (simp add: weighted_sum_def)
qed

text \<open>
  Claim C7. Rendering does not depend on invisible channels: two inputs of the same shape
  that agree on the samples and the colour of every visible channel give the same result,
  whatever the samples and colours of the invisible channels are; and when no channel is
  visible the result is the all-zero array.
\<close>

theorem render_ignores_invisible:
  assumes "shape v1 = [Z, C, X, Y]" and "shape v2 = [Z, C, X, Y]"
    and "length colors1 = C" and "length colors2 = C" and "length visibility = C"
    and "\<forall>c<C. visibility ! c \<longrightarrow>
           colors1 ! c = colors2 ! c \<and>
           (\<forall>z<Z. \<forall>x<X. \<forall>y<Y. get v1 [z, c, x, y] = get v2 [z, c, x, y])"
  shows "multichannel_to_rgb_stack v1 colors1 visibility
           = multichannel_to_rgb_stack v2 colors2 visibility \<and>
         (\<exists>out. multichannel_to_rgb_stack v1 colors1 visibility = Inr out) \<and>
         ((\<forall>c<C. \<not> visibility ! c) \<longrightarrow>
            multichannel_to_rgb_stack v1 colors1 visibility = Inr (zeros [Z, X, Y, 3]))"
proof -
  have ok1: "colors_ok C colors1 visibility" and ok2: "colors_ok C colors2 visibility"
    using assms(3-5) by (simp_all add: colors_ok_def)
  from render_result [OF assms(1) ok1]
  obtain out1 where out1: "multichannel_to_rgb_stack v1 colors1 visibility = Inr out1"
    "shape out1 = [Z, X, Y, 3]" "valid out1"
    "\<forall>z<Z. \<forall>x<X. \<forall>y<Y. \<forall>k<3. get out1 [z, x, y, k] =
        clip (weighted_sum v1 colors1 visibility z x y k) 0 1"
    by blast
  from render_result [OF assms(2) ok2]
  obtain out2 where out2: "multichannel_to_rgb_stack v2 colors2 visibility = Inr out2"
    "shape out2 = [Z, X, Y, 3]" "valid out2"
    "\<forall>z<Z. \<forall>x<X. \<forall>y<Y. \<forall>k<3. get out2 [z, x, y, k] =
        clip (weighted_sum v2 colors2 visibility z x y k) 0 1"
    by blast
  have "out1 = out2"
  proof (rule array_ext4 [OF out1(3) out2(3) out1(2) out2(2)])
    fix z x y k
    assume r: "z < Z" "x < X" "y < Y" "k < (3::nat)"
    have "weighted_sum v1 colors1 visibility z x y k = weighted_sum v2 colors2 visibility z x y k"
      using assms(3,4,6) r by (intro weighted_sum_cong) simp_all
    then show "get out1 [z, x, y, k] = get out2 [z, x, y, k]"
      using out1(4) out2(4) r by simp
  qed
  moreover have "out1 = zeros [Z, X, Y, 3]" if none: "\<forall>c<C. \<not> visibility ! c"
  proof (rule array_ext4 [OF out1(3) valid_zeros out1(2) shape_zeros])
    fix z x y k
    assume r: "z < Z" "x < X" "y < Y" "k < (3::nat)"
    have "weighted_sum v1 colors1 visibility z x y k = 0"
      using none assms(3) by (intro weighted_sum_invisible) simp
    then show "get out1 [z, x, y, k] = get (zeros [Z, X, Y, 3]) [z, x, y, k]"
      using out1(4) r by (simp add: get_zeros clip_def)
  qed
  ultimately show ?thesis
    using out1(1) out2(1) by simp
qed

theorem render_ignores_invisible_witness:
  "multichannel_to_rgb_stack \<lparr>shape = [1, 2, 1, 1], data = [1 / 2, 9 / 10]\<rparr>
     [(1, 0, 0), (0, 1, 0)] [True, False]
   = multichannel_to_rgb_stack \<lparr>shape = [1, 2, 1, 1], data = [1 / 2, 1 / 10]\<rparr>
     [(1, 0, 0), (0, 0, 1)] [True, False] \<and>
   multichannel_to_rgb_stack \<lparr>shape = [1, 2, 1, 1], data = [1 / 2, 9 / 10]\<rparr>
     [(1, 0, 0), (0, 1, 0)] [False, False] = Inr (zeros [1, 1, 1, 3])"
proof -
  let ?v1 = "\<lparr>shape = [1, 2, 1, 1], data = [1 / 2, 9 / 10]\<rparr>"
  let ?v2 = "\<lparr>shape = [1, 2, 1, 1], data = [1 / 2, 1 / 10]\<rparr>"
  let ?c1 = "[(1, 0, 0), (0, 1, 0)] :: (real \<times> real \<times> real) list"
  let ?c2 = "[(1, 0, 0), (0, 0, 1)] :: (real \<times> real \<times> real) list"
  have h1: "shape ?v1 = [1, 2, 1, 1]" and h2: "shape ?v2 = [1, 2, 1, 1]"
    and h3: "length ?c1 = 2" and h4: "length ?c2 = 2"
    and h5: "length [True, False] = 2" and h5': "length [False, False] = 2"
    by simp_all
  have h6: "\<forall>c<2. [True, False] ! c \<longrightarrow>
           ?c1 ! c = ?c2 ! c \<and>
           (\<forall>z<1. \<forall>x<1. \<forall>y<1. get ?v1 [z, c, x, y] = get ?v2 [z, c, x, y])"
    by (simp add: less_2_cases_iff get_def offset.simps)
  have h6': "\<forall>c<2. [False, False] ! c \<longrightarrow>
           ?c1 ! c = ?c1 ! c \<and>
           (\<forall>z<1. \<forall>x<1. \<forall>y<1. get ?v1 [z, c, x, y] = get ?v1 [z, c, x, y])"
    by simp
  have none: "\<forall>c<2. \<not> [False, False] ! c"
    by (simp add: less_2_cases_iff)
  show ?thesis
    using render_ignores_invisible [OF h1 h2 h3 h4 h5 h6]
      render_ignores_invisible [OF h1 h1 h3 h3 h5' h6'] none
    by blast
qed

lemma index1_leading_one:
  assumes "valid a" and "shape a = 1 # s"
  shows "index1 a 0 = \<lparr>shape = s, data = data a\<rparr>"
proof -
  have "get a (0 # i) = data a ! (0 + offset s i)" for i
    using assms(2) by (simp add: get_def offset.simps)
  then have "tabulate s (\<lambda>i. get a (0 # i)) = tabulate s (\<lambda>i. data a ! (0 + offset s i))"
    by simp
  also have "\<dots> = take (prod_list s) (drop 0 (data a))"
    using assms by (intro tabulate_buffer_slice) (simp add: valid_def)
  also have "\<dots> = data a"
    using assms by (simp add: valid_def)
  finally show ?thesis
    using assms(2) by (simp add: index1_def)
qed

text \<open>
  Claim C4. Shape resolution fails with the shape error, and the pipeline with it before any
  numeric work, for every 5-D input whose first axis is not of size 1 and for every input
  that is neither 4-D nor 5-D; a 5-D input with a first axis of size 1 is collapsed to the 4-D
  volume with the same samples, and a 4-D input is returned unchanged.
\<close>

theorem resolve_shape_cases:
  "(ndim img = 5 \<and> shape img ! 0 \<noteq> 1 \<longrightarrow>
      resolve_shape img = Inl UnsupportedShape \<and> pipeline img ps cs vis = Inl UnsupportedShape) \<and>
   (ndim img \<noteq> 4 \<and> ndim img \<noteq> 5 \<longrightarrow>
      resolve_shape img = Inl UnsupportedShape \<and> pipeline img ps cs vis = Inl UnsupportedShape) \<and>
   (ndim img = 5 \<and> shape img ! 0 = 1 \<and> valid img \<longrightarrow>
      resolve_shape img = Inr \<lparr>shape = tl (shape img), data = data img\<rparr>) \<and>
   (ndim img = 4 \<longrightarrow> resolve_shape img = Inr img)"
proof (intro conjI impI)
  assume "ndim img = 5 \<and> shape img ! 0 \<noteq> 1"
  then show "resolve_shape img = Inl UnsupportedShape"
    by (simp add: resolve_shape_def collapse_def)
  then show "pipeline img ps cs vis = Inl UnsupportedShape"
    by (simp add: pipeline_def)
next
  assume "ndim img \<noteq> 4 \<and> ndim img \<noteq> 5"
  then show "resolve_shape img = Inl UnsupportedShape"
    by (simp add: resolve_shape_def collapse_def)
  then show "pipeline img ps cs vis = Inl UnsupportedShape"
    by (simp add: pipeline_def)
next
  assume a: "ndim img = 5 \<and> shape img ! 0 = 1 \<and> valid img"
  then obtain s where s: "shape img = 1 # s"
    by (cases "shape img") (auto simp add: ndim_def)
  then have "index1 img 0 = \<lparr>shape = tl (shape img), data = data img\<rparr>"
    using a index1_leading_one [of img s] by simp
  moreover have "length s = 4" using a s by (simp add: ndim_def)
  ultimately show "resolve_shape img = Inr \<lparr>shape = tl (shape img), data = data img\<rparr>"
    using a s by (simp add: resolve_shape_def collapse_def ndim_def)
next
  assume "ndim img = 4"
  then show "resolve_shape img = Inr img"
    by (simp add: resolve_shape_def collapse_def)
qed

theorem resolve_shape_cases_witness:
  "resolve_shape \<lparr>shape = [2, 1, 1, 1, 1], data = [1, 2]\<rparr> = Inl UnsupportedShape \<and>
   pipeline \<lparr>shape = [2, 1, 1, 1, 1], data = [1, 2]\<rparr> [(0, 100)] [(1, 0, 0)] [True]
     = Inl UnsupportedShape \<and>
   resolve_shape \<lparr>shape = [1, 2, 3], data = [1, 2, 3, 4, 5, 6]\<rparr> = Inl UnsupportedShape \<and>
   resolve_shape \<lparr>shape = [1, 1, 1, 1, 2], data = [1, 2]\<rparr>
     = Inr \<lparr>shape = [1, 1, 1, 2], data = [1, 2]\<rparr> \<and>
   resolve_shape \<lparr>shape = [1, 1, 1, 2], data = [1, 2]\<rparr>
     = Inr \<lparr>shape = [1, 1, 1, 2], data = [1, 2]\<rparr>"
  using resolve_shape_cases [of "\<lparr>shape = [2, 1, 1, 1, 1], data = [1, 2]\<rparr>" "[(0, 100)]" "[(1, 0, 0)]" "[True]"]
    resolve_shape_cases [of "\<lparr>shape = [1, 2, 3], data = [1, 2, 3, 4, 5, 6]\<rparr>"]
    resolve_shape_cases [of "\<lparr>shape = [1, 1, 1, 1, 2], data = [1, 2]\<rparr>"]
    resolve_shape_cases [of "\<lparr>shape = [1, 1, 1, 2], data = [1, 2]\<rparr>"]
  by (simp add: ndim_def valid_def)

text \<open>
  Claim C5. For a 4-D volume and any parameters, the pipeline run on the 5-D array of shape
  \<open>(1, Z, C, X, Y)\<close> with the same samples gives the same outcome as the pipeline run on the
  volume itself.
\<close>

theorem pipeline_collapse:
  assumes "valid v" and "ndim v = 4"
  shows "pipeline (prepend_axis v) percentiles channel_colors channel_visibility
       = pipeline v percentiles channel_colors channel_visibility"
proof -
  have "valid (prepend_axis v)"
    using assms(1) by (simp add: prepend_axis_def valid_def)
  then have "index1 (prepend_axis v) 0 = \<lparr>shape = shape v, data = data v\<rparr>"
    using index1_leading_one [of "prepend_axis v" "shape v"] by (simp add: prepend_axis_def)
  then have "index1 (prepend_axis v) 0 = v"
    by simp
  then have "resolve_shape (prepend_axis v) = resolve_shape v"
    using assms(2) by (simp add: resolve_shape_def collapse_def ndim_def prepend_axis_def)
  then show ?thesis
    by (simp add: pipeline_def)
qed

theorem pipeline_collapse_witness:
  "pipeline \<lparr>shape = [1, 1, 1, 1, 2], data = [0, 10]\<rparr> [(0, 100)] [(1, 0, 0)] [True]
     = pipeline \<lparr>shape = [1, 1, 1, 2], data = [0, 10]\<rparr> [(0, 100)] [(1, 0, 0)] [True] \<and>
   pipeline \<lparr>shape = [1, 1, 1, 2], data = [0, 10]\<rparr> [(0, 100)] [(1, 0, 0)] [True]
     = Inr \<lparr>shape = [1, 1, 2, 3], data = [0, 0, 0, 1, 0, 0]\<rparr>"
proof -
  let ?v = "\<lparr>shape = [1, 1, 1, 2], data = [0, 10]\<rparr>"
  have h1: "valid ?v" and h2: "ndim ?v = 4"
    by (simp_all add: valid_def ndim_def)
  have "prepend_axis ?v = \<lparr>shape = [1, 1, 1, 1, 2], data = [0, 10]\<rparr>"
    by (simp add: prepend_axis_def)
  moreover have "pipeline ?v [(0, 100)] [(1, 0, 0)] [True]
     = Inr \<lparr>shape = [1, 1, 2, 3], data = [0, 0, 0, 1, 0, 0]\<rparr>"
    by code_simp
  ultimately show ?thesis
    using pipeline_collapse [OF h1 h2, of "[(0, 100)]" "[(1, 0, 0)]" "[True]"] by simp
qed

lemma hex_digit_bound: "hex_digit ch = Some d \<Longrightarrow> d < 16"
  by (auto simp add: hex_digit_def Let_def split: if_splits)

lemma hex_digit_not_space: "hex_digit ch = Some d \<Longrightarrow> \<not> is_space ch"
  by (auto simp add: hex_digit_def is_space_def Let_def split: if_splits)

lemma hex_digit_not_sign: "hex_digit ch = Some d \<Longrightarrow> ch \<noteq> CHR ''-'' \<and> ch \<noteq> CHR ''+''"
  by (auto simp add: hex_digit_def Let_def split: if_splits)

lemma int16_two_digits:
  assumes "hex_digit c1 = Some d1" and "hex_digit c2 = Some d2"
  shows "int16 [c1, c2] = Inr (int (16 * d1 + d2))"
proof -
  have "strip [c1, c2] = [c1, c2]"
    using assms by (simp add: strip_def hex_digit_not_space)
  then show ?thesis
    using assms hex_digit_not_sign [OF assms(1)] by (simp add: int16_def Let_def)
qed

text \<open>
  Claim C10. For a colour string \<open>#RRGGBB\<close> whose six characters after the \<open>#\<close> are
  hexadecimal digits, \<open>hex_to_rgb_floats\<close> returns the three byte values \<open>RR\<close>, \<open>GG\<close>,
  \<open>BB\<close>, each divided by 255; every component lies in \<open>[0, 1]\<close>.
\<close>

theorem hex_to_rgb_floats_bytes:
  assumes "hex_digit r1 = Some a1" and "hex_digit r2 = Some a2"
    and "hex_digit g1 = Some b1" and "hex_digit g2 = Some b2"
    and "hex_digit b1' = Some c1" and "hex_digit b2' = Some c2"
  shows "hex_to_rgb_floats [CHR ''#'', r1, r2, g1, g2, b1', b2']
           = Inr (real (16 * a1 + a2) / 255, real (16 * b1 + b2) / 255, real (16 * c1 + c2) / 255) \<and>
         0 \<le> real (16 * a1 + a2) / 255 \<and> real (16 * a1 + a2) / 255 \<le> 1 \<and>
         0 \<le> real (16 * b1 + b2) / 255 \<and> real (16 * b1 + b2) / 255 \<le> 1 \<and>
         0 \<le> real (16 * c1 + c2) / 255 \<and> real (16 * c1 + c2) / 255 \<le> 1"
proof -
  have sl: "slice [CHR ''#'', r1, r2, g1, g2, b1', b2'] 1 (1 + 2) = [r1, r2]"
    "slice [CHR ''#'', r1, r2, g1, g2, b1', b2'] 3 (3 + 2) = [g1, g2]"
    "slice [CHR ''#'', r1, r2, g1, g2, b1', b2'] 5 (5 + 2) = [b1', b2']"
    by (simp_all add: slice_def numeral_eq_Suc)
  have "hex_to_rgb_floats [CHR ''#'', r1, r2, g1, g2, b1', b2']
      = Inr (real (16 * a1 + a2) / 255, real (16 * b1 + b2) / 255, real (16 * c1 + c2) / 255)"
    unfolding hex_to_rgb_floats_def sl
    by (simp add: int16_two_digits [OF assms(1,2)] int16_two_digits [OF assms(3,4)]
        int16_two_digits [OF assms(5,6)])
  moreover have "16 * a1 + a2 \<le> 255" "16 * b1 + b2 \<le> 255" "16 * c1 + c2 \<le> 255"
    using assms [THEN hex_digit_bound] by simp_all
  ultimately show ?thesis
    by simp
qed

theorem hex_to_rgb_floats_bytes_witness:
  "hex_to_rgb_floats ''#FFA500'' = Inr (1, 165 / 255, 0)"
proof -
  have h: "hex_digit CHR ''F'' = Some 15" "hex_digit CHR ''A'' = Some 10"
    "hex_digit CHR ''5'' = Some 5" "hex_digit CHR ''0'' = Some 0"
    by (simp_all add: hex_digit_def)
  show ?thesis
    using hex_to_rgb_floats_bytes [OF h(1) h(1) h(2) h(3) h(4) h(4)] by simp
qed

lemma to_uint8_floor:
  assumes "0 \<le> v" and "v \<le> 1"
  shows "uint (to_uint8 v) = \<lfloor>v * 255\<rfloor>" and "0 \<le> \<lfloor>v * 255\<rfloor>" and "\<lfloor>v * 255\<rfloor> \<le> 255"
proof -
  have lo: "0 \<le> v * 255" using assms(1) by simp
  then show f0: "0 \<le> \<lfloor>v * 255\<rfloor>" by simp
  have "v * 255 \<le> 255" using assms(2) by simp
  then show f1: "\<lfloor>v * 255\<rfloor> \<le> 255" by (simp add: floor_le_iff)
  have "take_bit 8 \<lfloor>v * 255\<rfloor> = \<lfloor>v * 255\<rfloor>"
    using f0 f1 by (simp add: take_bit_int_eq_self)
  then show "uint (to_uint8 v) = \<lfloor>v * 255\<rfloor>"
    using lo by (simp add: to_uint8_def astype_uint8_def uint_word_of_int_eq)
qed

lemma decimal_value_append:
  "decimal_value (s @ [ch]) = 10 * decimal_value s + (of_char ch - 48)"
  by (simp add: decimal_value_def)

lemma decimal_value_decimal: "decimal_value (decimal n) = n"
proof (induction n rule: decimal.induct)
  case (1 n)
  show ?case
  proof (cases "n < 10")
    case True
    then show ?thesis
      by (subst decimal.simps) (simp add: decimal_value_def)
  next
    case False
    have "n mod 10 < 10" by simp
    then have "of_char (char_of (48 + n mod 10)) = 48 + n mod 10"
      by simp
    then show ?thesis
      using False 1 by (subst decimal.simps) (simp add: decimal_value_append)
  qed
qed

lemma decimal_value_zeros: "decimal_value (replicate k CHR ''0'' @ s) = decimal_value s"
proof -
  have "foldl (\<lambda>acc ch. 10 * acc + (of_char ch - 48)) 0 (replicate k CHR ''0'') = (0 :: nat)"
    by (induction k) simp_all
  then show ?thesis by (simp add: decimal_value_def)
qed

lemma decimal_length_pos: "0 < length (decimal n)"
  by (subst decimal.simps) simp

lemma decimal_length_small: "n < 1000 \<Longrightarrow> length (decimal n) \<le> 3"
proof -
  assume n: "n < 1000"
  have l1: "length (decimal m) = 1" if "m < 10" for m
    using that by (subst decimal.simps) simp
  have l2: "length (decimal m) \<le> 2" if "m < 100" for m
    using that l1 [of "m div 10"] l1 [of m] by (subst decimal.simps) auto
  show ?thesis
    using n l2 [of "n div 10"] l1 [of n] by (subst decimal.simps) auto
qed

text \<open>
  Claim C8, as amended. The conversion of a sample \<open>v\<close> of \<open>[0, 1]\<close> to 8 bits drops the
  fraction of \<open>v * 255\<close> (it does not round to nearest); the result lies in \<open>[0, 255]\<close>.
  The file name of slice \<open>z\<close> is \<open>z_\<close>, the index padded with zeros to at least three
  digits (exactly three below 1000), and \<open>.png\<close>.
\<close>

theorem export_truncates:
  "(0 \<le> v \<and> v \<le> 1 \<longrightarrow>
      uint (to_uint8 v) = \<lfloor>v * 255\<rfloor> \<and> 0 \<le> uint (to_uint8 v) \<and> uint (to_uint8 v) \<le> 255) \<and>
   file_name z = ''z_'' @ format_03d z @ ''.png'' \<and>
   3 \<le> length (format_03d z) \<and>
   (z < 1000 \<longrightarrow> length (format_03d z) = 3) \<and>
   decimal_value (format_03d z) = z"
proof (intro conjI impI)
  assume "0 \<le> v \<and> v \<le> 1"
  then have v: "0 \<le> v" "v \<le> 1" by simp_all
  show "uint (to_uint8 v) = \<lfloor>v * 255\<rfloor>"
    by (rule to_uint8_floor(1) [OF v])
  show "0 \<le> uint (to_uint8 v)"
    by simp
  show "uint (to_uint8 v) \<le> 255"
    using to_uint8_floor [OF v] by simp
next
  show "file_name z = ''z_'' @ format_03d z @ ''.png''"
    by (simp add: file_name_def)
  show "3 \<le> length (format_03d z)"
    by (simp add: format_03d_def)
  show "decimal_value (format_03d z) = z"
    by (simp add: format_03d_def decimal_value_zeros decimal_value_decimal)
next
  assume "z < 1000"
  then show "length (format_03d z) = 3"
    using decimal_length_small [of z] by (simp add: format_03d_def)
qed

theorem export_truncates_witness:
  "uint (to_uint8 (3 / 8)) = 95 \<and> file_name 7 = ''z_007.png'' \<and> length (format_03d 7) = 3"
proof -
  have "\<lfloor>3 / 8 * 255 :: real\<rfloor> = 95" by simp
  moreover have "file_name 7 = ''z_007.png''" by code_simp
  ultimately show ?thesis
    using export_truncates [of "3 / 8" 7] by simp
qed

text \<open>
  Claim C8 as stated fails: at the sample \<open>3/8\<close> the program produces 95 where
  \<open>round(value * 255)\<close> is 96.
\<close>

theorem export_rounding_counterexample:
  "uint (to_uint8 (3 / 8)) \<noteq> spec_quantize (3 / 8)"
  by (simp add: to_uint8_def astype_uint8_def spec_quantize_def round_def)

lemma for_each_cong:
  assumes "\<And>i t. i \<in> set xs \<Longrightarrow> f i t = g i t"
  shows "for_each xs f s = for_each xs g s"
  using assms by (induction xs arbitrary: s) (simp_all split: sum.splits)

lemma for_each_fails:
  assumes "i \<in> set xs" and "\<And>t. \<exists>e. body i t = Inl e"
  shows "\<exists>e. for_each xs body s = Inl e"
  using assms(1)
proof (induction xs arbitrary: s)
  case Nil
  then show ?case by simp
next
  case (Cons x xs)
  show ?case
  proof (cases "body x s")
    case (Inl e)
    then show ?thesis by simp
  next
    case (Inr s')
    then have "i \<noteq> x" using assms(2) [of s] by auto
    then have "i \<in> set xs" using Cons.prems by simp
    then show ?thesis using Cons.IH Inr by simp
  qed
qed

lemma for_each_error_kind:
  assumes "for_each xs body s = Inl e"
    and "\<And>i t e'. i \<in> set xs \<Longrightarrow> body i t = Inl e' \<Longrightarrow> e' = E"
  shows "e = E"
  using assms
proof (induction xs arbitrary: s)
  case Nil
  then show ?case by simp
next
  case (Cons x xs)
  show ?case
  proof (cases "body x s")
    case (Inl e')
    then show ?thesis using Cons.prems by auto
  next
    case (Inr s')
    then have "for_each xs body s' = Inl e" using Cons.prems(1) by simp
    then show ?thesis
    proof (rule Cons.IH)
      fix i t e'
      assume "i \<in> set xs" "body i t = Inl e'"
      then show "e' = E" using Cons.prems(2) [of i t e'] by simp
    qed
  qed
qed

lemma normalize_channel_missing:
  "length ps \<le> c \<Longrightarrow> normalize_channel volume ps c t = Inl IndexError"
  by (simp add: normalize_channel_def Let_def)

lemma normalize_channel_error_kind:
  assumes "normalize_channel volume ps c t = Inl e" and "percents_ok ps"
  shows "e = IndexError"
proof (cases "length ps \<le> c")
  case True
  then show ?thesis using assms(1) by (simp add: normalize_channel_missing)
next
  case False
  obtain lo hi where p: "ps ! c = (lo, hi)" by (cases "ps ! c")
  have "ps ! c \<in> set ps" using False by simp
  then have rng: "0 \<le> lo" "lo \<le> 100" "0 \<le> hi" "hi \<le> 100"
    using assms(2) p unfolding percents_ok_def by force+
  show ?thesis
    using assms(1) False p percentile_error_kind [OF rng(1,2)] percentile_error_kind [OF rng(3,4)]
    by (auto simp add: normalize_channel_def Let_def split: if_splits sum.splits)
qed

lemma normalize_channel_no_samples:
  assumes "shape volume = [Z, C, X, Y]" and "\<not> (0 < Z \<and> 0 < X \<and> 0 < Y)" and "percents_ok ps"
  shows "normalize_channel volume ps c t = Inl IndexError"
proof (cases "length ps \<le> c")
  case True
  then show ?thesis by (simp add: normalize_channel_missing)
next
  case False
  obtain lo hi where p: "ps ! c = (lo, hi)" by (cases "ps ! c")
  have "ps ! c \<in> set ps" using False by simp
  then have "0 \<le> lo" "lo \<le> 100"
    using assms(3) p unfolding percents_ok_def by force+
  moreover have "data (channel volume c) = []"
    using assms(2) channel_nonempty [OF assms(1), of c] by blast
  ultimately have "percentile (data (channel volume c)) lo = Inl IndexError"
    by (simp add: percentile_def)
  then show ?thesis
    using False p by (simp add: normalize_channel_def Let_def)
qed

lemma normalize_short_percentiles:
  assumes "shape volume = [Z, C, X, Y]" and "length ps < C" and "percents_ok ps"
  shows "normalize_channels_with_percentiles volume ps = Inl IndexError"
proof -
  let ?loop = "for_each [0..<C] (normalize_channel volume ps) (zeros (shape volume))"
  have "length ps \<in> set [0..<C]" using assms(2) by simp
  then obtain e where e: "?loop = Inl e"
    using for_each_fails [of "length ps" "[0..<C]" "normalize_channel volume ps"]
    by (auto simp add: normalize_channel_missing)
  have "e = IndexError"
  proof (rule for_each_error_kind [OF e])
    fix i t e'
    assume "normalize_channel volume ps i t = Inl e'"
    then show "e' = IndexError"
      using assms(3) by (rule normalize_channel_error_kind)
  qed
  then show ?thesis
    using e assms(1) by (simp add: normalize_channels_with_percentiles_def unpack4_def)
qed

lemma normalize_no_samples:
  assumes "shape volume = [Z, C, X, Y]" and "0 < C" and "\<not> (0 < Z \<and> 0 < X \<and> 0 < Y)"
    and "percents_ok ps"
  shows "normalize_channels_with_percentiles volume ps = Inl IndexError"
proof -
  let ?loop = "for_each [0..<C] (normalize_channel volume ps) (zeros (shape volume))"
  have "0 \<in> set [0..<C]" using assms(2) by simp
  then obtain e where e: "?loop = Inl e"
    using for_each_fails [of 0 "[0..<C]" "normalize_channel volume ps"]
    by (auto simp add: normalize_channel_no_samples [OF assms(1,3,4)])
  have "e = IndexError"
  proof (rule for_each_error_kind [OF e])
    fix i t e'
    assume "normalize_channel volume ps i t = Inl e'"
    then show "e' = IndexError"
      using assms(4) by (rule normalize_channel_error_kind)
  qed
  then show ?thesis
    using e assms(1) by (simp add: normalize_channels_with_percentiles_def unpack4_def)
qed

lemma normalize_no_samples_example:
  "normalize_channels_with_percentiles \<lparr>shape = [0, 1, 1, 1], data = []\<rparr> [(0, 100)]
     = Inl IndexError"
  by code_simp

lemma normalize_no_channels:
  assumes "shape volume = [Z, 0, X, Y]"
  shows "normalize_channels_with_percentiles volume ps = Inr (zeros (shape volume))"
  using assms by (simp add: normalize_channels_with_percentiles_def unpack4_def)

lemma normalize_extra_percentiles:
  assumes "shape volume = [Z, C, X, Y]" and "C \<le> length ps"
  shows "normalize_channels_with_percentiles volume ps
       = normalize_channels_with_percentiles volume (take C ps)"
proof -
  have "normalize_channel volume ps c t = normalize_channel volume (take C ps) c t"
    if "c \<in> set [0..<C]" for c t
    using that assms(2) by (simp add: normalize_channel_def Let_def)
  then have "for_each [0..<C] (normalize_channel volume ps) (zeros (shape volume))
      = for_each [0..<C] (normalize_channel volume (take C ps)) (zeros (shape volume))"
    by (rule for_each_cong)
  then show ?thesis
    using assms(1) by (simp add: normalize_channels_with_percentiles_def unpack4_def)
qed

lemma add_channel_error_kind: "add_channel volume visibility z item t = Inl e \<Longrightarrow> e = IndexError"
  by (cases item)
    (auto simp add: add_channel_def index2_def Let_def split: if_splits sum.splits)

lemma composite_slice_error_kind:
  assumes "composite_slice volume colors visibility z t = Inl e"
  shows "e = IndexError"
proof -
  have "for_each (enumerate 0 colors) (add_channel volume visibility z) t = Inl e"
    using assms by (simp add: composite_slice_def split: sum.splits)
  then show ?thesis
    by (rule for_each_error_kind) (rule add_channel_error_kind)
qed

lemma add_channel_fails:
  assumes "shape volume = [Z, C, X, Y]"
    and "\<not> (c < length visibility \<and> (visibility ! c \<longrightarrow> c < C))"
  shows "add_channel volume visibility z (c, col) t = Inl IndexError"
proof (cases "c < length visibility")
  case False
  then show ?thesis by (cases col) (simp add: add_channel_def)
next
  case True
  then have "visibility ! c" "C \<le> c" using assms(2) by auto
  then show ?thesis
    using True index2_error [OF assms(1), of c z]
    by (cases col) (simp add: add_channel_def)
qed

lemma render_bad_parameters:
  assumes "shape volume = [Z, C, X, Y]" and "0 < Z" and "\<not> colors_ok C colors visibility"
  shows "multichannel_to_rgb_stack volume colors visibility = Inl IndexError"
proof -
  from assms(3) obtain c where c: "c < length colors"
    "\<not> (c < length visibility \<and> (visibility ! c \<longrightarrow> c < C))"
    by (auto simp add: colors_ok_def)
  have item: "(c, colors ! c) \<in> set (enumerate 0 colors)"
    using c(1) by (simp add: in_set_enumerate_eq)
  have slice: "composite_slice volume colors visibility z t = Inl IndexError" for z t
  proof -
    obtain e where e: "for_each (enumerate 0 colors) (add_channel volume visibility z) t = Inl e"
      using for_each_fails [OF item, of "add_channel volume visibility z" t]
        add_channel_fails [OF assms(1) c(2)] by blast
    then have "composite_slice volume colors visibility z t = Inl e"
      by (simp add: composite_slice_def)
    then show ?thesis using composite_slice_error_kind by blast
  qed
  let ?loop = "for_each [0..<Z] (composite_slice volume colors visibility) (zeros [Z, X, Y, 3])"
  have "0 \<in> set [0..<Z]" using assms(2) by simp
  then obtain e where e: "?loop = Inl e"
    using for_each_fails [of 0 "[0..<Z]" "composite_slice volume colors visibility"] slice
    by blast
  then have "e = IndexError"
    by (rule for_each_error_kind) (rule composite_slice_error_kind)
  then show ?thesis
    using e assms(1) by (simp add: multichannel_to_rgb_stack_def unpack4_def)
qed

lemma render_extra_visibility:
  "multichannel_to_rgb_stack volume colors visibility
     = multichannel_to_rgb_stack volume colors (take (length colors) visibility)"
proof -
  let ?vis = "take (length colors) visibility"
  have item: "add_channel volume visibility z i t = add_channel volume ?vis z i t"
    if "i \<in> set (enumerate 0 colors)" for z i t
  proof -
    obtain c col where i: "i = (c, col)" by (cases i)
    then have "c < length colors" using that by (simp add: in_set_enumerate_eq)
    then show ?thesis
      using i by (cases col) (auto simp add: add_channel_def min_def)
  qed
  have "composite_slice volume colors visibility z t = composite_slice volume colors ?vis z t"
    for z t
    using for_each_cong [of "enumerate 0 colors" "add_channel volume visibility z"
        "add_channel volume ?vis z" t] item
    by (simp add: composite_slice_def)
  then have eq: "composite_slice volume colors visibility = composite_slice volume colors ?vis"
    by (intro ext)
  show ?thesis
    unfolding multichannel_to_rgb_stack_def by (subst eq) (rule refl)
qed

section \<open>Parameter lists of the wrong length\<close>

text \<open>
  Claim C6, as amended. Neither function checks the length of its parameter lists. On a
  volume that has samples, with percentiles in \<open>[0, 100]\<close>, normalisation raises IndexError
  exactly when there are fewer percentile pairs than channels; pairs beyond the first \<open>C\<close>
  are ignored. Rendering a stack with at least one slice raises IndexError exactly when some
  colour entry has no visibility flag or a visible colour entry has no channel; otherwise it
  returns the clamped sum over the colour entries alone, so that visibility flags beyond the
  colour list and channels beyond it are ignored.
\<close>

theorem parameter_length_mismatch:
  assumes "shape volume = [Z, C, X, Y]"
  shows "(percents_ok percentiles \<and> 0 < Z \<and> 0 < X \<and> 0 < Y \<longrightarrow>
            (normalize_channels_with_percentiles volume percentiles = Inl IndexError
               \<longleftrightarrow> length percentiles < C)) \<and>
         (C \<le> length percentiles \<longrightarrow>
            normalize_channels_with_percentiles volume percentiles
              = normalize_channels_with_percentiles volume (take C percentiles)) \<and>
         (0 < Z \<longrightarrow>
            (multichannel_to_rgb_stack volume colors visibility = Inl IndexError
               \<longleftrightarrow> \<not> colors_ok C colors visibility)) \<and>
         multichannel_to_rgb_stack volume colors visibility
           = multichannel_to_rgb_stack volume colors (take (length colors) visibility) \<and>
         (colors_ok C colors visibility \<longrightarrow>
            (\<exists>out. multichannel_to_rgb_stack volume colors visibility = Inr out \<and>
               (\<forall>z<Z. \<forall>x<X. \<forall>y<Y. \<forall>k<3. get out [z, x, y, k] =
                  clip (sum_list (map (\<lambda>c. get volume [z, c, x, y] * component (colors ! c) k)
                    (filter (\<lambda>c. visibility ! c) [0..<length colors]))) 0 1)))"
proof (intro conjI impI)
  assume "percents_ok percentiles \<and> 0 < Z \<and> 0 < X \<and> 0 < Y"
  then have ok: "percents_ok percentiles" and ne: "0 < Z" "0 < X" "0 < Y"
    by simp_all
  show "normalize_channels_with_percentiles volume percentiles = Inl IndexError
          \<longleftrightarrow> length percentiles < C"
  proof
    assume err: "normalize_channels_with_percentiles volume percentiles = Inl IndexError"
    show "length percentiles < C"
    proof (rule ccontr)
      assume "\<not> length percentiles < C"
      then have "C \<le> length percentiles" by simp
      from normalize_result [OF assms this ok ne] err show False by auto
    qed
  next
    assume "length percentiles < C"
    then show "normalize_channels_with_percentiles volume percentiles = Inl IndexError"
      using assms ok by (intro normalize_short_percentiles)
  qed
next
  assume "C \<le> length percentiles"
  then show "normalize_channels_with_percentiles volume percentiles
      = normalize_channels_with_percentiles volume (take C percentiles)"
    using assms by (intro normalize_extra_percentiles)
next
  assume z: "0 < Z"
  show "multichannel_to_rgb_stack volume colors visibility = Inl IndexError
          \<longleftrightarrow> \<not> colors_ok C colors visibility"
  proof
    assume err: "multichannel_to_rgb_stack volume colors visibility = Inl IndexError"
    show "\<not> colors_ok C colors visibility"
    proof
      assume "colors_ok C colors visibility"
      from render_result [OF assms this] err show False by auto
    qed
  next
    assume "\<not> colors_ok C colors visibility"
    then show "multichannel_to_rgb_stack volume colors visibility = Inl IndexError"
      using assms z by (intro render_bad_parameters)
  qed
next
  show "multichannel_to_rgb_stack volume colors visibility
      = multichannel_to_rgb_stack volume colors (take (length colors) visibility)"
    by (rule render_extra_visibility)
next
  assume "colors_ok C colors visibility"
  from render_result [OF assms this]
  show "\<exists>out. multichannel_to_rgb_stack volume colors visibility = Inr out \<and>
          (\<forall>z<Z. \<forall>x<X. \<forall>y<Y. \<forall>k<3. get out [z, x, y, k] =
             clip (sum_list (map (\<lambda>c. get volume [z, c, x, y] * component (colors ! c) k)
               (filter (\<lambda>c. visibility ! c) [0..<length colors]))) 0 1)"
    by (auto simp add: weighted_sum_def)
qed

theorem parameter_length_mismatch_witness:
  "normalize_channels_with_percentiles \<lparr>shape = [1, 2, 1, 1], data = [3, 4]\<rparr> [(0, 100)]
     = Inl IndexError \<and>
   normalize_channels_with_percentiles \<lparr>shape = [1, 2, 1, 1], data = [3, 4]\<rparr>
       [(0, 100), (0, 100), (5, 95)]
     = normalize_channels_with_percentiles \<lparr>shape = [1, 2, 1, 1], data = [3, 4]\<rparr>
       [(0, 100), (0, 100)] \<and>
   multichannel_to_rgb_stack \<lparr>shape = [1, 2, 1, 1], data = [3, 4]\<rparr>
       [(1, 0, 0), (0, 1, 0)] [True] = Inl IndexError \<and>
   (\<exists>out. multichannel_to_rgb_stack \<lparr>shape = [1, 2, 1, 1], data = [3, 4]\<rparr>
       [(1, 0, 0)] [True, True] = Inr out)"
proof -
  let ?v = "\<lparr>shape = [1, 2, 1, 1], data = [3, 4]\<rparr>"
  have h: "shape ?v = [1, 2, 1, 1]" by simp
  have p: "percents_ok [(0, 100)]" by (simp add: percents_ok_def)
  have bad: "\<not> colors_ok 2 [(1, 0, 0), (0, 1, 0)] [True]"
    by (auto simp add: colors_ok_def intro: exI [of _ 1])
  have good: "colors_ok 2 [(1, 0, 0)] [True, True]"
    by (simp add: colors_ok_def)
  have l1: "length [(0, 100 :: real)] < 2" and l2: "2 \<le> length [(0, 100), (0, 100), (5, 95 :: real)]"
    and z: "(0 :: nat) < 1"
    by simp_all
  have t: "take 2 [(0, 100), (0, 100), (5, 95 :: real)] = [(0, 100), (0, 100)]"
    by (simp add: numeral_2_eq_2)
  note A = parameter_length_mismatch [OF h, of "[(0, 100)]" "[(1, 0, 0), (0, 1, 0)]" "[True]"]
  note B = parameter_length_mismatch [OF h, of "[(0, 100), (0, 100), (5, 95)]"
      "[(1, 0, 0)]" "[True, True]"]
  have c1: "normalize_channels_with_percentiles ?v [(0, 100)] = Inl IndexError"
    using A p l1 z by blast
  have "normalize_channels_with_percentiles ?v [(0, 100), (0, 100), (5, 95)]
      = normalize_channels_with_percentiles ?v (take 2 [(0, 100), (0, 100), (5, 95)])"
    using B l2 by blast
  then have c2: "normalize_channels_with_percentiles ?v [(0, 100), (0, 100), (5, 95)]
      = normalize_channels_with_percentiles ?v [(0, 100), (0, 100)]"
    unfolding t .
  have c3: "multichannel_to_rgb_stack ?v [(1, 0, 0), (0, 1, 0)] [True] = Inl IndexError"
    using A z bad by blast
  have c4: "\<exists>out. multichannel_to_rgb_stack ?v [(1, 0, 0)] [True, True] = Inr out"
    using B good by blast
  show ?thesis
    using c1 c2 c3 c4 by (intro conjI)
qed

text \<open>
  Claim C6 as stated fails: a percentile list longer than the channel count, and colour and
  visibility lists shorter than it, produce a result without any signal.
\<close>

theorem parameter_length_mismatch_counterexample:
  "normalize_channels_with_percentiles \<lparr>shape = [1, 1, 1, 2], data = [0, 10]\<rparr>
       [(0, 100), (1, 99)]
     = Inr \<lparr>shape = [1, 1, 1, 2], data = [0, 1]\<rparr> \<and>
   multichannel_to_rgb_stack \<lparr>shape = [1, 2, 1, 1], data = [7 / 10, 7 / 10]\<rparr>
       [(1, 0, 0)] [True]
     = Inr \<lparr>shape = [1, 1, 1, 3], data = [7 / 10, 0, 0]\<rparr>"
  by code_simp

lemma in_place_fresh:
  assumes "src < length h"
  shows "in_place src (length h) f (h @ [a])
       = (case f (h ! src) a of Inl e \<Rightarrow> Inl e | Inr a' \<Rightarrow> Inr (h @ [a']))"
  using assms by (simp add: in_place_def nth_append list_update_append split: sum.splits)

lemma in_place_loop:
  assumes "src < length h"
  shows "for_each xs (\<lambda>i. in_place src (length h) (f i)) (h @ [a])
       = (case for_each xs (\<lambda>i. f i (h ! src)) a of Inl e \<Rightarrow> Inl e | Inr a' \<Rightarrow> Inr (h @ [a']))"
proof (induction xs arbitrary: a)
  case Nil
  then show ?case by simp
next
  case (Cons x xs)
  show ?case
    using Cons.IH by (simp add: in_place_fresh [OF assms] split: sum.splits)
qed

lemma normalize_in_heap_eq:
  assumes "volume < length h"
  shows "normalize_in_heap h volume ps
       = (case normalize_channels_with_percentiles (h ! volume) ps of
            Inl e \<Rightarrow> Inl e | Inr a \<Rightarrow> Inr (h @ [a], length h))"
  by (simp add: normalize_in_heap_def normalize_channels_with_percentiles_def alloc_def
      in_place_loop [OF assms] split: sum.splits prod.splits)

lemma composite_slice_in_heap_eq:
  assumes "volume < length h"
  shows "composite_slice_in_heap volume (length h) colors vis z (h @ [a])
       = (case composite_slice (h ! volume) colors vis z a of
            Inl e \<Rightarrow> Inl e | Inr a' \<Rightarrow> Inr (h @ [a']))"
  by (simp add: composite_slice_in_heap_def composite_slice_def in_place_loop [OF assms]
      in_place_fresh [OF assms] split: sum.splits)

lemma composite_loop_in_heap:
  assumes "volume < length h"
  shows "for_each zs (composite_slice_in_heap volume (length h) colors vis) (h @ [a])
       = (case for_each zs (composite_slice (h ! volume) colors vis) a of
            Inl e \<Rightarrow> Inl e | Inr a' \<Rightarrow> Inr (h @ [a']))"
proof (induction zs arbitrary: a)
  case Nil
  then show ?case by simp
next
  case (Cons z zs)
  show ?case
    using Cons.IH by (simp add: composite_slice_in_heap_eq [OF assms] split: sum.splits)
qed

lemma render_in_heap_eq:
  assumes "volume < length h"
  shows "render_in_heap h volume colors vis
       = (case multichannel_to_rgb_stack (h ! volume) colors vis of
            Inl e \<Rightarrow> Inl e | Inr a \<Rightarrow> Inr (h @ [a], length h))"
  by (simp add: render_in_heap_def multichannel_to_rgb_stack_def alloc_def
      composite_loop_in_heap [OF assms] split: sum.splits prod.splits)

text \<open>
  Claim C9. Neither stage mutates its input. When normalisation, run on the array at an
  address of the heap, returns, its result is at a new address (one the heap did not have),
  every array the heap had before, the input among them, is unchanged, and the new array is
  the normalised volume; the same holds for rendering. Each stage returns in the heap
  whenever it returns as a function of the array alone.
\<close>

theorem stages_leave_input_unchanged:
  assumes "volume < length h"
  shows "(\<forall>h' out. normalize_in_heap h volume percentiles = Inr (h', out) \<longrightarrow>
            out = length h \<and> length h' = Suc (length h) \<and> (\<forall>a<length h. h' ! a = h ! a) \<and>
            normalize_channels_with_percentiles (h ! volume) percentiles = Inr (h' ! out)) \<and>
         (\<forall>h' out. render_in_heap h volume colors visibility = Inr (h', out) \<longrightarrow>
            out = length h \<and> length h' = Suc (length h) \<and> (\<forall>a<length h. h' ! a = h ! a) \<and>
            multichannel_to_rgb_stack (h ! volume) colors visibility = Inr (h' ! out)) \<and>
         ((\<exists>r. normalize_channels_with_percentiles (h ! volume) percentiles = Inr r) \<longrightarrow>
            (\<exists>h' out. normalize_in_heap h volume percentiles = Inr (h', out))) \<and>
         ((\<exists>r. multichannel_to_rgb_stack (h ! volume) colors visibility = Inr r) \<longrightarrow>
            (\<exists>h' out. render_in_heap h volume colors visibility = Inr (h', out)))"
proof -
  have N: "out = length h \<and> length h' = Suc (length h) \<and> (\<forall>a<length h. h' ! a = h ! a) \<and>
      normalize_channels_with_percentiles (h ! volume) percentiles = Inr (h' ! out)"
    if "normalize_in_heap h volume percentiles = Inr (h', out)" for h' out
  proof -
    from that obtain r where r:
      "normalize_channels_with_percentiles (h ! volume) percentiles = Inr r"
      "h' = h @ [r]" "out = length h"
      by (auto simp add: normalize_in_heap_eq [OF assms] split: sum.splits)
    then show ?thesis by (simp add: nth_append)
  qed
  have R: "out = length h \<and> length h' = Suc (length h) \<and> (\<forall>a<length h. h' ! a = h ! a) \<and>
      multichannel_to_rgb_stack (h ! volume) colors visibility = Inr (h' ! out)"
    if "render_in_heap h volume colors visibility = Inr (h', out)" for h' out
  proof -
    from that obtain r where r:
      "multichannel_to_rgb_stack (h ! volume) colors visibility = Inr r"
      "h' = h @ [r]" "out = length h"
      by (auto simp add: render_in_heap_eq [OF assms] split: sum.splits)
    then show ?thesis by (simp add: nth_append)
  qed
  have N': "\<exists>h' out. normalize_in_heap h volume percentiles = Inr (h', out)"
    if "\<exists>r. normalize_channels_with_percentiles (h ! volume) percentiles = Inr r"
    using that by (auto simp add: normalize_in_heap_eq [OF assms])
  have R': "\<exists>h' out. render_in_heap h volume colors visibility = Inr (h', out)"
    if "\<exists>r. multichannel_to_rgb_stack (h ! volume) colors visibility = Inr r"
    using that by (auto simp add: render_in_heap_eq [OF assms])
  show ?thesis
    using N R N' R' by (intro conjI allI impI) blast+
qed

theorem stages_leave_input_unchanged_witness:
  "(\<exists>h'. normalize_in_heap [\<lparr>shape = [1, 1, 1, 2], data = [0, 10]\<rparr>] 0 [(0, 100)] = Inr (h', 1) \<and>
      h' ! 0 = \<lparr>shape = [1, 1, 1, 2], data = [0, 10]\<rparr> \<and>
      h' ! 1 = \<lparr>shape = [1, 1, 1, 2], data = [0, 1]\<rparr>) \<and>
   (\<exists>h'. render_in_heap [\<lparr>shape = [1, 1, 1, 2], data = [0, 10]\<rparr>] 0 [(1, 0, 0)] [True]
        = Inr (h', 1) \<and>
      h' ! 0 = \<lparr>shape = [1, 1, 1, 2], data = [0, 10]\<rparr>)"
proof -
  let ?v = "\<lparr>shape = [1, 1, 1, 2], data = [0, 10]\<rparr>"
  let ?n = "\<lparr>shape = [1, 1, 1, 2], data = [0, 1]\<rparr>"
  let ?r = "\<lparr>shape = [1, 1, 2, 3], data = [0, 0, 0, 1, 0, 0]\<rparr>"
  have h: "(0 :: nat) < length [?v]" by simp
  have n: "normalize_in_heap [?v] 0 [(0, 100)] = Inr ([?v, ?n], 1)"
    by code_simp
  have r: "render_in_heap [?v] 0 [(1, 0, 0)] [True] = Inr ([?v, ?r], 1)"
    by code_simp
  note T = stages_leave_input_unchanged [OF h, of "[(0, 100)]" "[(1, 0, 0)]" "[True]"]
  have "[?v, ?n] ! 0 = [?v] ! 0"
    using T n by simp
  moreover have "[?v, ?r] ! 0 = [?v] ! 0"
    using T r by simp
  ultimately show ?thesis
    using n r by simp
qed

end
